theory Spec2Isabelle
  imports Complex_Main
begin

section \<open>Python strings\<close>

text \<open>
  A Python \<open>str\<close> is a sequence of Unicode code points and \<open>len\<close> counts code points,
  so a string is modelled as a list of code points (natural numbers).
\<close>

type_synonym pstr = "nat list"

definition ustr :: "string \<Rightarrow> pstr" where
  "ustr s = map of_char s"

text \<open>
  The code points for which \<open>str.isspace\<close> holds; \<open>str.split()\<close> and \<open>str.strip()\<close>
  without arguments separate and trim on exactly these.
\<close>

definition is_space :: "nat \<Rightarrow> bool" where
  "is_space c \<longleftrightarrow>
     (9 \<le> c \<and> c \<le> 13) \<or> (28 \<le> c \<and> c \<le> 32) \<or> c = 133 \<or> c = 160 \<or> c = 5760 \<or>
     (8192 \<le> c \<and> c \<le> 8202) \<or> c = 8232 \<or> c = 8233 \<or> c = 8239 \<or> c = 8287 \<or>
     c = 12288"

text \<open>\<open>s.strip()\<close>: leading and trailing whitespace removed.\<close>

definition py_strip :: "pstr \<Rightarrow> pstr" where
  "py_strip s = rev (dropWhile is_space (rev (dropWhile is_space s)))"

text \<open>
  \<open>s.split()\<close>: the maximal runs of non-whitespace code points, in order. The scan keeps
  the token being read in \<open>cur\<close>.
\<close>

fun split_scan :: "pstr \<Rightarrow> pstr \<Rightarrow> pstr list" where
  "split_scan cur [] = (if cur = [] then [] else [cur])"
| "split_scan cur (c # cs) =
     (if is_space c then (if cur = [] then split_scan [] cs else cur # split_scan [] cs)
      else split_scan (cur @ [c]) cs)"

definition py_split :: "pstr \<Rightarrow> pstr list" where
  "py_split s = split_scan [] s"

text \<open>\<open>" ".join(parts)\<close>.\<close>

fun join_space :: "pstr list \<Rightarrow> pstr" where
  "join_space [] = []"
| "join_space [p] = p"
| "join_space (p # q # ps) = p @ [32] @ join_space (q # ps)"

section \<open>Exceptions\<close>

text \<open>
  The exceptions that the modelled code raises or catches. Each carries \<open>str(e)\<close>.
  \<open>BadRequest\<close> is \<open>telegram.error.BadRequest\<close>; \<open>OtherException\<close> stands for any
  other subclass of \<open>Exception\<close> coming from a library call.
\<close>

datatype py_exn = ValueError pstr | TypeError pstr | BadRequest pstr | OtherException pstr

fun exn_str :: "py_exn \<Rightarrow> pstr" where
  "exn_str (ValueError m) = m"
| "exn_str (TypeError m) = m"
| "exn_str (BadRequest m) = m"
| "exn_str (OtherException m) = m"

section \<open>utils.py: split_into_chunks\<close>

text \<open>
  The inner loop \<open>for i in range(0, len(part), max_length): chunks.append(part[i : i + max_length])\<close>
  for a positive step, started at index \<open>i\<close>.
\<close>

function range_slices :: "nat \<Rightarrow> nat \<Rightarrow> pstr \<Rightarrow> pstr list" where
  "range_slices i step part =
     (if 0 < step \<and> i < length part
      then take step (drop i part) # range_slices (i + step) step part
      else [])"
  by pat_completeness auto
termination
  by (relation "measure (\<lambda>(i, step, part). length part - i)") auto

declare range_slices.simps [simp del]

text \<open>
  The same loop for any integer step: \<open>range\<close> raises \<open>ValueError\<close> on a zero step and
  is empty for a negative step (start \<open>0\<close> is below the stop \<open>len(part)\<close>).
\<close>

definition char_slices :: "pstr \<Rightarrow> int \<Rightarrow> py_exn + pstr list" where
  "char_slices part max_length =
     (if max_length = 0 then Inl (ValueError (ustr ''range() arg 3 must not be zero''))
      else if max_length < 0 then Inr []
      else Inr (range_slices 0 (nat max_length) part))"

text \<open>
  The loop over \<open>text.split()\<close>. The state is \<open>chunks\<close>, \<open>current\<close> and \<open>current_len\<close>;
  the result is the state after the last part, or the exception that left the loop.
\<close>

fun chunk_loop ::
  "int \<Rightarrow> pstr list \<Rightarrow> pstr list \<Rightarrow> pstr list \<Rightarrow> int \<Rightarrow> py_exn + (pstr list \<times> pstr list \<times> int)"
where
  "chunk_loop max_length [] chunks current current_len = Inr (chunks, current, current_len)"
| "chunk_loop max_length (part # parts) chunks current current_len =
     (let part_len = int (length part) + (if current \<noteq> [] then 1 else 0) in
      if current_len + part_len \<le> max_length
      then chunk_loop max_length parts chunks (current @ [part]) (current_len + part_len)
      else
        (let chunks1 = (if current \<noteq> [] then chunks @ [join_space current] else chunks) in
         if int (length part) > max_length
         then (case char_slices part max_length of
                 Inl e \<Rightarrow> Inl e
               | Inr sl \<Rightarrow> chunk_loop max_length parts (chunks1 @ sl) [] 0)
         else chunk_loop max_length parts chunks1 [part] (int (length part) + 1)))"

definition split_into_chunks :: "pstr \<Rightarrow> int \<Rightarrow> py_exn + pstr list" where
  "split_into_chunks text max_length =
     (if text = [] then Inr []
      else if int (length text) \<le> max_length then Inr [text]
      else (case chunk_loop max_length (py_split text) [] [] 0 of
              Inl e \<Rightarrow> Inl e
            | Inr (chunks, current, current_len) \<Rightarrow>
                Inr (if current \<noteq> [] then chunks @ [join_space current] else chunks)))"

text \<open>A token: a non-empty string without whitespace, as \<open>str.split()\<close> returns them.\<close>

definition is_token :: "pstr \<Rightarrow> bool" where
  "is_token t \<longleftrightarrow> t \<noteq> [] \<and> \<not> list_ex is_space t"

text \<open>
  A chunk that is its own tokens joined by single spaces: it is not empty and
  \<open>" ".join(chunk.split())\<close> gives it back.
\<close>

definition single_spaced :: "pstr \<Rightarrow> bool" where
  "single_spaced c \<longleftrightarrow> c \<noteq> [] \<and> join_space (py_split c) = c"

section \<open>utils.py: RateLimiter\<close>

text \<open>
  \<open>_timestamps\<close> is a \<open>defaultdict(list)\<close>: reading a missing key gives the empty list.
  \<open>time.monotonic()\<close> is the argument \<open>now\<close>; times are real numbers (the rounding
  of floating-point subtraction is not modelled).
\<close>

record RateLimiter =
  max_per_minute :: int
  timestamps :: "int \<Rightarrow> real list option"

definition timestamps_of :: "RateLimiter \<Rightarrow> int \<Rightarrow> real list" where
  "timestamps_of rl user_id = (case timestamps rl user_id of None \<Rightarrow> [] | Some ts \<Rightarrow> ts)"

definition is_allowed :: "RateLimiter \<Rightarrow> int \<Rightarrow> real \<Rightarrow> bool \<times> RateLimiter" where
  "is_allowed rl user_id now =
     (let cutoff = now - 60;
          kept = filter (\<lambda>t. t > cutoff) (timestamps_of rl user_id);
          rl1 = rl\<lparr>timestamps := (timestamps rl)(user_id \<mapsto> kept)\<rparr>
      in if int (length kept) \<ge> max_per_minute rl1 then (False, rl1)
         else (True, rl1\<lparr>timestamps := (timestamps rl1)(user_id \<mapsto> kept @ [now])\<rparr>))"

text \<open>
  A sequence of \<open>is_allowed\<close> calls, each a user and the clock reading at the call, on one
  limiter; the result pairs every call's user with the answer.
\<close>

fun run_calls :: "RateLimiter \<Rightarrow> (int \<times> real) list \<Rightarrow> (int \<times> bool) list" where
  "run_calls rl [] = []"
| "run_calls rl ((user_id, now) # calls) =
     (case is_allowed rl user_id now of
        (ok, rl') \<Rightarrow> (user_id, ok) # run_calls rl' calls)"

definition calls_of :: "int \<Rightarrow> (int \<times> 'a) list \<Rightarrow> 'a list" where
  "calls_of u xs = map snd (filter (\<lambda>p. fst p = u) xs)"

section \<open>config.py\<close>

datatype ConversationState = MAIN_MENU | AWAITING_DESCRIPTION | PROMPT_SHOWN | AWAITING_REFINEMENT

datatype Category = IMAGE | CODE | VIDEO | TEXT

fun Category_value :: "Category \<Rightarrow> pstr" where
  "Category_value IMAGE = ustr ''image''"
| "Category_value CODE = ustr ''code''"
| "Category_value VIDEO = ustr ''video''"
| "Category_value TEXT = ustr ''text''"

text \<open>\<open>Category(value)\<close>; \<open>None\<close> is the \<open>ValueError\<close> of a string that names no member.\<close>

definition Category_of :: "pstr \<Rightarrow> Category option" where
  "Category_of v =
     (if v = ustr ''image'' then Some IMAGE
      else if v = ustr ''code'' then Some CODE
      else if v = ustr ''video'' then Some VIDEO
      else if v = ustr ''text'' then Some TEXT
      else None)"

definition MAX_MESSAGE_LENGTH :: int where "MAX_MESSAGE_LENGTH = 4096"
definition DEEPSEEK_RETRY_ATTEMPTS :: nat where "DEEPSEEK_RETRY_ATTEMPTS = 3"
definition RATE_LIMIT_REQUESTS_PER_MINUTE :: int where "RATE_LIMIT_REQUESTS_PER_MINUTE = 5"
definition HISTORY_MAX_ITEMS :: nat where "HISTORY_MAX_ITEMS = 5"

text \<open>
  The message constants, the keyboards and the system prompts are fixed texts; they are
  referred to by name.
\<close>

datatype ui_text =
    MSG_CHOOSE_CATEGORY | MSG_SENDING | MSG_ERROR_NETWORK | MSG_ERROR_API | MSG_ERROR_UNKNOWN
  | MSG_HERE_PROMPT | MSG_RATE_LIMIT | MSG_APPROVE_OR_REFINE | MSG_SEND_REFINEMENT
  | PROMPT_MESSAGES Category | Plain pstr

datatype keyboard = category_keyboard | awaiting_keyboard | approve_refine_keyboard

datatype system_prompt = SYSTEM_PROMPTS Category | REFINEMENT_SYSTEM_PROMPT

section \<open>bot.py: call_deepseek\<close>

text \<open>
  The external API is a parameter: \<open>tr system_prompt user_message attempt\<close> is what the
  \<open>attempt\<close>-th request gives, either an exception raised by
  \<open>client.chat.completions.create\<close> or by reading \<open>response.choices[0].message.content\<close>,
  or the content, which may be \<open>None\<close>.
\<close>

type_synonym transport_fn = "system_prompt \<Rightarrow> pstr \<Rightarrow> nat \<Rightarrow> py_exn + pstr option"

text \<open>Lines 176 to 178: the empty-response check and the stripped return value.\<close>

definition check_content :: "pstr option \<Rightarrow> py_exn + pstr" where
  "check_content content =
     (case content of
        None \<Rightarrow> Inl (ValueError (ustr ''Empty response from DeepSeek''))
      | Some c \<Rightarrow>
          if c = [] \<or> py_strip c = [] then Inl (ValueError (ustr ''Empty response from DeepSeek''))
          else Inr (py_strip c))"

text \<open>The body of the \<open>try\<close> for one attempt.\<close>

definition attempt_once :: "py_exn + pstr option \<Rightarrow> py_exn + pstr" where
  "attempt_once r = (case r of Inl e \<Rightarrow> Inl e | Inr content \<Rightarrow> check_content content)"

text \<open>
  What a call did: its result (the returned string or the raised exception), the number
  of requests it made and the \<open>asyncio.sleep\<close> durations in order.
\<close>

record completion =
  outcome :: "py_exn + pstr"
  attempts :: nat
  sleeps :: "nat list"

text \<open>
  The loop \<open>for attempt in range(R)\<close> from \<open>attempt\<close> on. \<open>raise last_error\<close> with
  \<open>last_error = None\<close> (only when \<open>R = 0\<close>) is a \<open>TypeError\<close>.
\<close>

function retry_loop ::
  "nat \<Rightarrow> (nat \<Rightarrow> py_exn + pstr option) \<Rightarrow> nat \<Rightarrow> py_exn option \<Rightarrow> nat list \<Rightarrow> completion"
where
  "retry_loop R tr attempt last_error slept =
     (if attempt < R then
        (case attempt_once (tr attempt) of
           Inr v \<Rightarrow> \<lparr>outcome = Inr v, attempts = attempt + 1, sleeps = slept\<rparr>
         | Inl e \<Rightarrow>
             retry_loop R tr (attempt + 1) (Some e)
               (if attempt < R - 1 then slept @ [2 ^ attempt] else slept))
      else
        \<lparr>outcome =
           Inl (case last_error of
                  Some e \<Rightarrow> e
                | None \<Rightarrow> TypeError (ustr ''exceptions must derive from BaseException'')),
         attempts = attempt, sleeps = slept\<rparr>)"
  by pat_completeness auto
termination
  by (relation "measure (\<lambda>(R, tr, attempt, last_error, slept). R - attempt)") auto

declare retry_loop.simps [simp del]

definition call_deepseek :: "transport_fn \<Rightarrow> system_prompt \<Rightarrow> pstr \<Rightarrow> completion" where
  "call_deepseek tr system_prompt user_message =
     retry_loop DEEPSEEK_RETRY_ATTEMPTS (tr system_prompt user_message) 0 None []"

section \<open>bot.py: the handlers that call the API\<close>

text \<open>
  \<open>context.user_data\<close> with the keys the handlers use; a missing key is \<open>None\<close>.
\<close>

record history_item =
  item_category :: pstr
  item_text :: pstr

record user_data =
  category :: "pstr option"
  last_prompt :: "pstr option"
  last_category :: "pstr option"
  original_description :: "pstr option"
  history :: "history_item list option"

record update =
  effective_user_id :: "int option"
  message_text :: "pstr option"

text \<open>
  What a handler meets outside the process: the API, the monotonic clock, the Telegram
  calls and \<open>str.lower\<close>. The Telegram calls of one handler run (\<open>reply_text\<close>,
  \<open>status_msg.delete\<close>, \<open>status_msg.edit_text\<close>) are numbered from 0 in the order in which
  the handler makes them; \<open>telegram ev i\<close> is \<open>None\<close> when call \<open>i\<close> succeeds and \<open>Some e\<close>
  when it raises \<open>e\<close>. A call that succeeds is recorded as an effect.
\<close>

record env =
  transport :: transport_fn
  monotonic :: real
  telegram :: "nat \<Rightarrow> py_exn option"
  str_lower :: "pstr \<Rightarrow> pstr"

datatype effect = ReplyText ui_text "keyboard option" | DeleteStatus | EditStatus ui_text

text \<open>
  What a handler run leaves: the state it returns or the exception it raises, the session,
  the limiter and the effects. The session and the limiter are mutated in place, so they
  keep their changes when the handler raises.
\<close>

type_synonym handler_result =
  "(py_exn + ConversationState) \<times> user_data \<times> RateLimiter \<times> effect list"

text \<open>\<open>update.effective_user.id if update.effective_user else 0\<close>.\<close>

definition user_id_of :: "update \<Rightarrow> int" where
  "user_id_of upd = (case effective_user_id upd of Some i \<Rightarrow> i | None \<Rightarrow> 0)"

text \<open>\<open>(update.message.text or "").strip()\<close>.\<close>

definition user_text_of :: "update \<Rightarrow> pstr" where
  "user_text_of upd = py_strip (case message_text upd of Some t \<Rightarrow> t | None \<Rightarrow> [])"

text \<open>\<open>context.user_data.get("history") or []\<close>.\<close>

definition history_of :: "user_data \<Rightarrow> history_item list" where
  "history_of ud = (case history ud of None \<Rightarrow> [] | Some h \<Rightarrow> h)"

text \<open>\<open>needle in hay\<close>.\<close>

fun contains :: "pstr \<Rightarrow> pstr \<Rightarrow> bool" where
  "contains [] needle = (needle = [])"
| "contains (c # cs) needle = (take (length needle) (c # cs) = needle \<or> contains cs needle)"

definition error_message :: "(pstr \<Rightarrow> pstr) \<Rightarrow> py_exn \<Rightarrow> ui_text" where
  "error_message lower e =
     (if contains (lower (exn_str e)) (ustr ''timeout'') \<or>
         contains (lower (exn_str e)) (ustr ''connection'')
      then MSG_ERROR_NETWORK
      else if contains (lower (exn_str e)) (ustr ''api_key'') \<or>
              contains (exn_str e) (ustr ''401'') \<or> contains (exn_str e) (ustr ''429'')
      then MSG_ERROR_API
      else MSG_ERROR_UNKNOWN)"

text \<open>
  Telegram calls made one after the other from call number \<open>i\<close> on: the exception of the
  first call that raises, if any, and the effects of the calls before it.
\<close>

fun send_all :: "(nat \<Rightarrow> py_exn option) \<Rightarrow> nat \<Rightarrow> effect list \<Rightarrow> py_exn option \<times> effect list" where
  "send_all tg i [] = (None, [])"
| "send_all tg i (m # ms) =
     (case tg i of
        Some e \<Rightarrow> (Some e, [])
      | None \<Rightarrow> (case send_all tg (Suc i) ms of (r, sent) \<Rightarrow> (r, m # sent)))"

text \<open>
  The branches that only answer, \<open>await update.message.reply_text(...)\<close> followed by
  \<open>return state\<close>, as call number 0: an exception of the call leaves the handler.
\<close>

definition reply_only ::
  "env \<Rightarrow> effect \<Rightarrow> ConversationState \<Rightarrow> user_data \<Rightarrow> RateLimiter \<Rightarrow> handler_result"
where
  "reply_only ev msg st ud rl =
     (case telegram ev 0 of
        Some e \<Rightarrow> (Inl e, ud, rl, [])
      | None \<Rightarrow> (Inr st, ud, rl, [msg]))"

text \<open>
  The body of an \<open>except Exception as e\<close> block, starting at call number \<open>i\<close>:
  \<open>status_msg.edit_text(err_msg)\<close>, on any exception of it \<open>reply_text(err_msg)\<close> instead,
  then the closing \<open>reply_text\<close> of the block. The replies are not guarded: the first
  exception among them leaves the handler.
\<close>

definition report_error :: "env \<Rightarrow> nat \<Rightarrow> py_exn \<Rightarrow> effect \<Rightarrow> py_exn option \<times> effect list" where
  "report_error ev i e closing =
     (case telegram ev i of
        None \<Rightarrow>
          (case send_all (telegram ev) (i + 1) [closing] of
             (r, sent) \<Rightarrow> (r, EditStatus (error_message (str_lower ev) e) # sent))
      | Some x \<Rightarrow>
          send_all (telegram ev) (i + 1)
            [ReplyText (error_message (str_lower ev) e) None, closing])"

text \<open>
  Leaving through the \<open>except\<close> block: the handler returns \<open>st\<close> when the block's calls
  succeed and raises otherwise. \<open>sent\<close> are the effects before the block.
\<close>

definition after_error ::
  "env \<Rightarrow> nat \<Rightarrow> py_exn \<Rightarrow> effect \<Rightarrow> ConversationState \<Rightarrow> user_data \<Rightarrow> RateLimiter \<Rightarrow>
     effect list \<Rightarrow> handler_result"
where
  "after_error ev i e closing st ud rl sent =
     (case report_error ev i e closing of
        (Some x, reported) \<Rightarrow> (Inl x, ud, rl, sent @ reported)
      | (None, reported) \<Rightarrow> (Inr st, ud, rl, sent @ reported))"

text \<open>
  Lines 315 to 318 (and 393 to 396), as call number \<open>i\<close>: \<open>status_msg.delete()\<close> with
  \<open>BadRequest\<close> swallowed; any other exception goes on to the \<open>except\<close> block.
\<close>

fun is_BadRequest :: "py_exn \<Rightarrow> bool" where
  "is_BadRequest (BadRequest m) = True"
| "is_BadRequest e = False"

definition delete_status :: "env \<Rightarrow> nat \<Rightarrow> py_exn option \<times> effect list" where
  "delete_status ev i =
     (case telegram ev i of
        None \<Rightarrow> (None, [DeleteStatus])
      | Some e \<Rightarrow> if is_BadRequest e then (None, []) else (Some e, []))"

text \<open>The messages that carry the result: one, or the chunks of \<open>split_into_chunks(result)\<close>.\<close>

definition result_messages :: "pstr \<Rightarrow> py_exn + effect list" where
  "result_messages result =
     (if int (length result) \<le> MAX_MESSAGE_LENGTH then Inr [ReplyText (Plain result) None]
      else (case split_into_chunks result MAX_MESSAGE_LENGTH of
              Inl e \<Rightarrow> Inl e
            | Inr chunks \<Rightarrow> Inr (map (\<lambda>chunk. ReplyText (Plain chunk) None) chunks)))"

text \<open>
  Lines 326 to 331 (and 398 to 403), from call number \<open>i\<close>: the header, then the result.
  The value is the exception that interrupted it, if any, the number of the next call and
  the effects.
\<close>

definition deliver :: "env \<Rightarrow> nat \<Rightarrow> pstr \<Rightarrow> py_exn option \<times> nat \<times> effect list" where
  "deliver ev i result =
     (case telegram ev i of
        Some e \<Rightarrow> (Some e, i + 1, [])
      | None \<Rightarrow>
          (case result_messages result of
             Inl e \<Rightarrow> (Some e, i + 1, [ReplyText MSG_HERE_PROMPT None])
           | Inr msgs \<Rightarrow>
               (case send_all (telegram ev) (i + 1) msgs of
                  (Some e, sent) \<Rightarrow>
                    (Some e, i + 1 + length sent + 1, ReplyText MSG_HERE_PROMPT None # sent)
                | (None, sent) \<Rightarrow>
                    (None, i + 1 + length sent, ReplyText MSG_HERE_PROMPT None # sent))))"

text \<open>\<open>xs[-n:]\<close> for \<open>n \<ge> 0\<close>; \<open>xs[-0:]\<close> is the whole list.\<close>

definition last_items :: "nat \<Rightarrow> 'a list \<Rightarrow> 'a list" where
  "last_items n xs = (if n = 0 then xs else drop (length xs - n) xs)"

text \<open>Line 322: the history entry of a result.\<close>

definition history_entry :: "pstr \<Rightarrow> pstr \<Rightarrow> history_item" where
  "history_entry category_value result =
     \<lparr>item_category = category_value,
      item_text = take 200 result @ (if length result > 200 then [8230] else [])\<rparr>"

text \<open>
  \<open>handle_description\<close> from line 313 on, after the status message (call 0) was sent:
  the \<open>try\<close> with its \<open>except\<close> block, which returns \<open>MAIN_MENU\<close>.
\<close>

definition description_try ::
  "env \<Rightarrow> Category \<Rightarrow> pstr \<Rightarrow> pstr \<Rightarrow> user_data \<Rightarrow> RateLimiter \<Rightarrow> handler_result"
where
  "description_try ev cat category_value user_text ud rl =
     (let sending = [ReplyText MSG_SENDING None];
          menu = ReplyText MSG_CHOOSE_CATEGORY (Some category_keyboard)
      in case outcome (call_deepseek (transport ev) (SYSTEM_PROMPTS cat) user_text) of
        Inl e \<Rightarrow> after_error ev 1 e menu MAIN_MENU ud rl sending
      | Inr result \<Rightarrow>
          (case delete_status ev 1 of
             (Some e, deleted) \<Rightarrow> after_error ev 2 e menu MAIN_MENU ud rl (sending @ deleted)
           | (None, deleted) \<Rightarrow>
               (let ud1 = ud\<lparr>history := Some (last_items HISTORY_MAX_ITEMS
                                 (history_of ud @ [history_entry category_value result]))\<rparr>
                in case deliver ev 2 result of
                  (Some e, i, sent) \<Rightarrow>
                    after_error ev i e menu MAIN_MENU ud1 rl (sending @ deleted @ sent)
                | (None, i, sent) \<Rightarrow>
                    (let ud2 = ud1\<lparr>last_prompt := Some result,
                                  last_category := Some category_value,
                                  original_description := Some user_text\<rparr>
                     in case telegram ev i of
                       Some e \<Rightarrow>
                         after_error ev (i + 1) e menu MAIN_MENU ud2 rl
                           (sending @ deleted @ sent)
                     | None \<Rightarrow>
                         (Inr PROMPT_SHOWN, ud2, rl,
                          sending @ deleted @ sent @
                          [ReplyText MSG_APPROVE_OR_REFINE (Some approve_refine_keyboard)])))))"

definition handle_description :: "env \<Rightarrow> update \<Rightarrow> user_data \<Rightarrow> RateLimiter \<Rightarrow> handler_result" where
  "handle_description ev upd ud rl =
     (let user_id = user_id_of upd;
          menu = reply_only ev (ReplyText MSG_CHOOSE_CATEGORY (Some category_keyboard))
                   MAIN_MENU ud rl
      in case category ud of
        None \<Rightarrow> menu
      | Some category_value \<Rightarrow>
          if category_value = [] then menu
          else (case Category_of category_value of
            None \<Rightarrow> menu
          | Some cat \<Rightarrow>
              (let user_text = user_text_of upd in
               if user_text = []
               then reply_only ev (ReplyText (PROMPT_MESSAGES cat) (Some awaiting_keyboard))
                      AWAITING_DESCRIPTION ud rl
               else (case is_allowed rl user_id (monotonic ev) of
                 (False, rl') \<Rightarrow>
                   reply_only ev (ReplyText MSG_RATE_LIMIT None) AWAITING_DESCRIPTION ud rl'
               | (True, rl') \<Rightarrow>
                   (case telegram ev 0 of
                      Some e \<Rightarrow> (Inl e, ud, rl', [])
                    | None \<Rightarrow> description_try ev cat category_value user_text ud rl')))))"

text \<open>Line 388: the user message of a refinement request.\<close>

definition refinement_message :: "pstr \<Rightarrow> pstr \<Rightarrow> pstr" where
  "refinement_message prompt user_text =
     ustr ''Current prompt:'' @ [10] @ prompt @ [10, 10] @ ustr ''User'' @ [39] @
     ustr ''s requested changes or additions:'' @ [10] @ user_text"

text \<open>
  \<open>handle_refinement\<close> from line 391 on, after the status message (call 0) was sent: the
  \<open>try\<close> with its \<open>except\<close> block, after which line 426 returns \<open>PROMPT_SHOWN\<close>.
\<close>

definition refinement_try ::
  "env \<Rightarrow> pstr \<Rightarrow> pstr \<Rightarrow> user_data \<Rightarrow> RateLimiter \<Rightarrow> handler_result"
where
  "refinement_try ev prompt user_text ud rl =
     (let sending = [ReplyText MSG_SENDING None];
          choice = ReplyText MSG_APPROVE_OR_REFINE (Some approve_refine_keyboard)
      in case outcome (call_deepseek (transport ev) REFINEMENT_SYSTEM_PROMPT
                         (refinement_message prompt user_text)) of
        Inl e \<Rightarrow> after_error ev 1 e choice PROMPT_SHOWN ud rl sending
      | Inr result \<Rightarrow>
          (case delete_status ev 1 of
             (Some e, deleted) \<Rightarrow> after_error ev 2 e choice PROMPT_SHOWN ud rl (sending @ deleted)
           | (None, deleted) \<Rightarrow>
               (let ud1 = ud\<lparr>last_prompt := Some result\<rparr>
                in case deliver ev 2 result of
                  (Some e, i, sent) \<Rightarrow>
                    after_error ev i e choice PROMPT_SHOWN ud1 rl (sending @ deleted @ sent)
                | (None, i, sent) \<Rightarrow>
                    (case telegram ev i of
                       Some e \<Rightarrow>
                         after_error ev (i + 1) e choice PROMPT_SHOWN ud1 rl
                           (sending @ deleted @ sent)
                     | None \<Rightarrow>
                         (Inr PROMPT_SHOWN, ud1, rl, sending @ deleted @ sent @ [choice])))))"

definition handle_refinement :: "env \<Rightarrow> update \<Rightarrow> user_data \<Rightarrow> RateLimiter \<Rightarrow> handler_result" where
  "handle_refinement ev upd ud rl =
     (let user_id = user_id_of upd;
          menu = reply_only ev (ReplyText MSG_CHOOSE_CATEGORY (Some category_keyboard))
                   MAIN_MENU ud rl
      in case last_prompt ud of
        None \<Rightarrow> menu
      | Some prompt \<Rightarrow>
          if prompt = [] then menu
          else
            (let user_text = user_text_of upd in
             if user_text = []
             then reply_only ev (ReplyText MSG_SEND_REFINEMENT (Some awaiting_keyboard))
                    AWAITING_REFINEMENT ud rl
             else (case is_allowed rl user_id (monotonic ev) of
               (False, rl') \<Rightarrow>
                 reply_only ev (ReplyText MSG_RATE_LIMIT None) AWAITING_REFINEMENT ud rl'
             | (True, rl') \<Rightarrow>
                 (case telegram ev 0 of
                    Some e \<Rightarrow> (Inl e, ud, rl', [])
                  | None \<Rightarrow> refinement_try ev prompt user_text ud rl'))))"

text \<open>
  One user's generations in sequence: before each description the user picks a category
  (\<open>category_callback\<close>, line 199, stores its value), then \<open>handle_description\<close> runs.
  The result lists what each step returned or raised and the session after it.
\<close>

definition select_category :: "Category \<Rightarrow> user_data \<Rightarrow> user_data" where
  "select_category c ud = ud\<lparr>category := Some (Category_value c)\<rparr>"

fun run_descriptions ::
  "(Category \<times> env \<times> update) list \<Rightarrow> user_data \<Rightarrow> RateLimiter \<Rightarrow>
     ((py_exn + ConversationState) \<times> user_data) list"
where
  "run_descriptions [] ud rl = []"
| "run_descriptions ((c, ev, upd) # steps) ud rl =
     (case handle_description ev upd (select_category c ud) rl of
        (st, ud', rl', out) \<Rightarrow> (st, ud') # run_descriptions steps ud' rl')"

text \<open>
  The history entry of the prompt that a successful step generated, read from the
  \<open>last_category\<close> and \<open>last_prompt\<close> which that step stores (lines 333 and 334).
\<close>

definition generated_entry :: "(py_exn + ConversationState) \<times> user_data \<Rightarrow> history_item" where
  "generated_entry r = history_entry (the (last_category (snd r))) (the (last_prompt (snd r)))"

section \<open>Values for the worked examples\<close>

text \<open>
  A text message \<open>" hi "\<close> from user 7; a session in which the category \<open>code\<close> is chosen and
  one prompt was generated before; a fresh limiter with the configured limit; an API that
  answers every request with the given content at the given clock reading, with every
  Telegram call succeeding; an API that always times out, where editing the status
  message (call 1) is refused and every other Telegram call succeeds; and an API that
  answers \<open>r\<close>, where deleting the status message (call 1) times out, which is no
  \<open>BadRequest\<close>. \<open>str.lower\<close> only selects the wording of an error message; the examples
  take the identity for it.
\<close>

definition ex_update :: update where
  "ex_update = \<lparr>effective_user_id = Some 7, message_text = Some [32, 104, 105, 32]\<rparr>"

definition ex_session :: user_data where
  "ex_session =
     \<lparr>category = Some (Category_value CODE), last_prompt = Some [112],
      last_category = Some (Category_value CODE), original_description = Some [100],
      history = Some [\<lparr>item_category = Category_value CODE, item_text = [112]\<rparr>]\<rparr>"

definition ex_limiter :: RateLimiter where
  "ex_limiter = \<lparr>max_per_minute = RATE_LIMIT_REQUESTS_PER_MINUTE, timestamps = Map.empty\<rparr>"

definition ex_env_ok :: "real \<Rightarrow> pstr \<Rightarrow> env" where
  "ex_env_ok now content =
     \<lparr>transport = (\<lambda>sp um k. Inr (Some content)), monotonic = now,
      telegram = (\<lambda>i. None), str_lower = (\<lambda>s. s)\<rparr>"


definition ex_env_delete_refused :: env where
  "ex_env_delete_refused =
     \<lparr>transport = (\<lambda>sp um k. Inr (Some [114])), monotonic = 0,
      telegram = (\<lambda>i. if i = 1 then Some (OtherException (ustr ''Timed out'')) else None),
      str_lower = (\<lambda>s. s)\<rparr>"

text \<open>
  Six generations by that user, 20 seconds apart, the API answering \<open>A\<close>, \<open>B\<close>, ... \<open>F\<close>.
\<close>

definition ex_six_steps :: "(Category \<times> env \<times> update) list" where
  "ex_six_steps =
     [(CODE, ex_env_ok 0 [65], ex_update), (CODE, ex_env_ok 20 [66], ex_update),
      (CODE, ex_env_ok 40 [67], ex_update), (CODE, ex_env_ok 60 [68], ex_update),
      (CODE, ex_env_ok 80 [69], ex_update), (CODE, ex_env_ok 100 [70], ex_update)]"

section \<open>Facts about splitting and slicing\<close>

lemma is_space_32: "is_space 32"
  by (simp add: is_space_def)

lemma is_token_iff: "is_token t \<longleftrightarrow> t \<noteq> [] \<and> (\<forall>c\<in>set t. \<not> is_space c)"
  by (simp add: is_token_def list_ex_iff)

lemma split_scan_append_token:
  "\<forall>c\<in>set t. \<not> is_space c \<Longrightarrow> split_scan cur (t @ rest) = split_scan (cur @ t) rest"
  by (induction t arbitrary: cur) simp_all

lemma split_scan_nonempty_cur: "cur \<noteq> [] \<Longrightarrow> split_scan cur s \<noteq> []"
  by (induction s arbitrary: cur) simp_all

lemma split_scan_tokens:
  "\<forall>c\<in>set cur. \<not> is_space c \<Longrightarrow> t \<in> set (split_scan cur s) \<Longrightarrow> is_token t"
proof (induction s arbitrary: cur)
  case Nil
  then show ?case by (auto simp: is_token_iff split: if_splits)
next
  case (Cons c cs)
  show ?case
  proof (cases "is_space c")
    case True
    with Cons.prems have "t = cur \<and> cur \<noteq> [] \<or> t \<in> set (split_scan [] cs)"
      by (auto split: if_splits)
    then show ?thesis
      using Cons.prems(1) Cons.IH [of "[]"] by (auto simp: is_token_iff)
  next
    case False
    with Cons.prems have "t \<in> set (split_scan (cur @ [c]) cs)" by simp
    moreover have "\<forall>d\<in>set (cur @ [c]). \<not> is_space d" using False Cons.prems(1) by simp
    ultimately show ?thesis by (rule Cons.IH [rotated])
  qed
qed

lemma py_split_tokens: "t \<in> set (py_split s) \<Longrightarrow> is_token t"
  unfolding py_split_def by (rule split_scan_tokens [of "[]"]) simp_all

lemma split_scan_length:
  "t \<in> set (split_scan cur s) \<Longrightarrow> length t \<le> length cur + length s"
proof (induction s arbitrary: cur)
  case Nil
  then show ?case by (auto split: if_splits)
next
  case (Cons c cs)
  then show ?case by (fastforce split: if_splits)
qed

lemma py_split_length: "t \<in> set (py_split s) \<Longrightarrow> length t \<le> length s"
  unfolding py_split_def using split_scan_length [of t "[]" s] by simp

lemma py_split_token: "is_token t \<Longrightarrow> py_split t = [t]"
  unfolding py_split_def is_token_iff
  using split_scan_append_token [of t "[]" "[]"] by simp

lemma py_split_join:
  "\<forall>t\<in>set ts. is_token t \<Longrightarrow> py_split (join_space ts) = ts"
proof (induction ts rule: join_space.induct)
  case 1
  then show ?case by (simp add: py_split_def)
next
  case (2 p)
  then show ?case by (simp add: py_split_token)
next
  case (3 p q ps)
  have p: "p \<noteq> []" "\<forall>c\<in>set p. \<not> is_space c" using "3.prems" by (simp_all add: is_token_iff)
  have "py_split (join_space (p # q # ps)) = split_scan p (32 # join_space (q # ps))"
    unfolding py_split_def using split_scan_append_token [OF p(2), of "[]"] by simp
  also have "\<dots> = p # py_split (join_space (q # ps))"
    using p(1) by (simp add: is_space_32 py_split_def)
  also have "\<dots> = p # q # ps" using "3.IH" "3.prems" by simp
  finally show ?case .
qed

lemma py_split_all_space: "list_all is_space s \<Longrightarrow> py_split s = []"
  unfolding py_split_def by (induction s) simp_all

lemma py_split_nonempty: "\<exists>c\<in>set s. \<not> is_space c \<Longrightarrow> py_split s \<noteq> []"
proof -
  have "\<exists>c\<in>set s. \<not> is_space c \<Longrightarrow> split_scan cur s \<noteq> []" for cur
  proof (induction s arbitrary: cur)
    case Nil
    then show ?case by simp
  next
    case (Cons c cs)
    then show ?case by (auto simp: split_scan_nonempty_cur)
  qed
  then show "\<exists>c\<in>set s. \<not> is_space c \<Longrightarrow> py_split s \<noteq> []" by (simp add: py_split_def)
qed

lemma range_slices_bound:
  "s \<in> set (range_slices i step part) \<Longrightarrow> length s \<le> step"
proof (induction i step part rule: range_slices.induct)
  case (1 i step part)
  then show ?case by (subst (asm) (2) range_slices.simps) (auto split: if_splits)
qed

lemma range_slices_concat:
  "0 < step \<Longrightarrow> concat (range_slices i step part) = drop i part"
proof (induction i step part rule: range_slices.induct)
  case (1 i step part)
  show ?case
  proof (cases "i < length part")
    case True
    have "concat (range_slices i step part) = take step (drop i part) @ drop (i + step) part"
      using True "1.prems" "1.IH" by (subst range_slices.simps) simp
    also have "\<dots> = drop i part"
    proof -
      have "take step (drop i part) @ drop step (drop i part) = drop i part"
        by (rule append_take_drop_id)
      then show ?thesis by (simp add: add.commute)
    qed
    finally show ?thesis .
  next
    case False
    then show ?thesis by (subst range_slices.simps) simp
  qed
qed

lemma range_slices_length:
  "0 < step \<Longrightarrow> length (range_slices i step part) = (length part - i + step - 1) div step"
proof (induction i step part rule: range_slices.induct)
  case (1 i step part)
  show ?case
  proof (cases "i < length part")
    case True
    define m where "m = length part - i - 1"
    have rhs: "length part - i + step - 1 = m + step" using True by (simp add: m_def)
    have "length (range_slices i step part) = Suc ((length part - (i + step) + step - 1) div step)"
      using True "1.prems" "1.IH" by (subst range_slices.simps) simp
    also have "\<dots> = Suc (m div step)"
    proof (cases "i + step \<le> length part")
      case True
      then have "length part - (i + step) + step - 1 = m" using "1.prems" by (simp add: m_def)
      then show ?thesis by simp
    next
      case False
      then have "length part - (i + step) + step - 1 < step" "m < step"
        using "1.prems" True by (simp_all add: m_def)
      then show ?thesis by simp
    qed
    also have "\<dots> = (m + step) div step" using "1.prems" by simp
    finally show ?thesis by (simp only: rhs)
  next
    case False
    then have "length part - i + step - 1 < step" using "1.prems" by simp
    then show ?thesis using False by (subst range_slices.simps) simp
  qed
qed

lemma range_slices_tokens:
  "\<forall>c\<in>set part. \<not> is_space c \<Longrightarrow> s \<in> set (range_slices i step part) \<Longrightarrow> is_token s"
proof (induction i step part rule: range_slices.induct)
  case (1 i step part)
  have u: "s \<in> set (if 0 < step \<and> i < length part
      then take step (drop i part) # range_slices (i + step) step part else [])"
    using "1.prems"(2) by (subst (asm) range_slices.simps) simp
  then have c: "0 < step \<and> i < length part" by (simp split: if_splits)
  with u have d: "s = take step (drop i part) \<or> s \<in> set (range_slices (i + step) step part)"
    by simp
  from d show ?case
  proof
    assume s: "s = take step (drop i part)"
    have "set s \<subseteq> set part" unfolding s by (meson set_drop_subset set_take_subset subset_trans)
    moreover have "s \<noteq> []" unfolding s using c by simp
    ultimately show ?thesis using "1.prems"(1) by (auto simp: is_token_iff)
  next
    assume "s \<in> set (range_slices (i + step) step part)"
    then show ?thesis using "1.IH" c "1.prems"(1) by simp
  qed
qed

lemma range_slices_short:
  "part \<noteq> [] \<Longrightarrow> length part \<le> step \<Longrightarrow> range_slices 0 step part = [part]"
proof -
  assume a: "part \<noteq> []" "length part \<le> step"
  then have "0 < length part" by simp
  with a have "0 < step" by linarith
  then show ?thesis using a by (subst range_slices.simps, subst range_slices.simps) auto
qed

lemma join_space_snoc:
  "join_space (xs @ [p]) = (if xs = [] then p else join_space xs @ [32] @ p)"
  by (induction xs rule: join_space.induct) simp_all

lemma concat_singletons: "concat (map (\<lambda>t. [t]) ts) = ts"
  by (induction ts) simp_all

lemma py_split_slices:
  "\<forall>s\<in>set sl. is_token s \<Longrightarrow> concat (map py_split sl) = sl"
  by (induction sl) (simp_all add: py_split_token)

lemma char_slices_pos: "0 < L \<Longrightarrow> char_slices part L = Inr (range_slices 0 (nat L) part)"
  by (simp add: char_slices_def)

lemma flush_split:
  assumes "\<forall>p\<in>set current. is_token p"
  shows "concat (map py_split (if current \<noteq> [] then chunks @ [join_space current] else chunks))
         = concat (map py_split chunks) @ current"
  using assms by (simp add: py_split_join)

lemma chunk_loop_ok:
  assumes "0 < L" "\<forall>p\<in>set parts. is_token p" "\<forall>p\<in>set current. is_token p"
    "0 \<le> clen" "int (length (join_space current)) \<le> clen"
    "int (length (join_space current)) \<le> L" "\<forall>c\<in>set chunks. int (length c) \<le> L"
  shows "\<exists>chunks' current' clen'.
           chunk_loop L parts chunks current clen = Inr (chunks', current', clen') \<and>
           (\<forall>c\<in>set chunks'. int (length c) \<le> L) \<and>
           int (length (join_space current')) \<le> L \<and>
           (\<forall>p\<in>set current'. is_token p) \<and>
           concat (map py_split chunks') @ current' =
             concat (map py_split chunks) @ current @ concat (map (range_slices 0 (nat L)) parts)"
  using assms
proof (induction parts arbitrary: chunks current clen)
  case Nil
  then show ?case by simp
next
  case (Cons part parts)
  have tok: "is_token part" and toks: "\<forall>p\<in>set parts. is_token p"
    using Cons.prems(2) by simp_all
  have ne: "part \<noteq> []" using tok by (simp add: is_token_iff)
  define part_len where "part_len = int (length part) + (if current \<noteq> [] then 1 else 0)"
  define chunks1 where
    "chunks1 = (if current \<noteq> [] then chunks @ [join_space current] else chunks)"
  have c1_bound: "\<forall>c\<in>set chunks1. int (length c) \<le> L"
    using Cons.prems(6,7) by (simp add: chunks1_def)
  have c1_split: "concat (map py_split chunks1) = concat (map py_split chunks) @ current"
    unfolding chunks1_def by (rule flush_split) (rule Cons.prems(3))
  show ?case
  proof (cases "clen + part_len \<le> L")
    case True
    have step: "chunk_loop L (part # parts) chunks current clen =
                chunk_loop L parts chunks (current @ [part]) (clen + part_len)"
      using True by (simp add: part_len_def Let_def)
    have len: "int (length (join_space (current @ [part]))) =
               int (length (join_space current)) + part_len"
      by (simp add: join_space_snoc part_len_def)
    have short: "int (length part) \<le> L"
      using True Cons.prems(4) by (simp add: part_len_def split: if_splits)
    then have rs: "range_slices 0 (nat L) part = [part]"
      using ne by (intro range_slices_short) simp_all
    have "\<exists>chunks' current' clen'.
            chunk_loop L parts chunks (current @ [part]) (clen + part_len)
              = Inr (chunks', current', clen') \<and>
            (\<forall>c\<in>set chunks'. int (length c) \<le> L) \<and>
            int (length (join_space current')) \<le> L \<and>
            (\<forall>p\<in>set current'. is_token p) \<and>
            concat (map py_split chunks') @ current' =
              concat (map py_split chunks) @ (current @ [part]) @
              concat (map (range_slices 0 (nat L)) parts)"
    proof (rule Cons.IH)
      show "0 < L" by (rule Cons.prems(1))
      show "\<forall>p\<in>set parts. is_token p" by (rule toks)
      show "\<forall>p\<in>set (current @ [part]). is_token p" using tok Cons.prems(3) by simp
      show "0 \<le> clen + part_len" using Cons.prems(4) by (simp add: part_len_def)
      show "int (length (join_space (current @ [part]))) \<le> clen + part_len"
        using len Cons.prems(5) by simp
      show "int (length (join_space (current @ [part]))) \<le> L"
        using len Cons.prems(5) True by simp
      show "\<forall>c\<in>set chunks. int (length c) \<le> L" by (rule Cons.prems(7))
    qed
    then show ?thesis unfolding step by (simp add: rs)
  next
    case False
    show ?thesis
    proof (cases "int (length part) > L")
      case True
      define sl where "sl = range_slices 0 (nat L) part"
      have step: "chunk_loop L (part # parts) chunks current clen =
                  chunk_loop L parts (chunks1 @ sl) [] 0"
        using False True Cons.prems(1)
        by (simp add: part_len_def chunks1_def sl_def Let_def char_slices_pos)
      have sl_tok: "\<forall>s\<in>set sl. is_token s"
        unfolding sl_def using tok range_slices_tokens [of part _ 0 "nat L"]
        by (auto simp: is_token_iff)
      have sl_bound: "\<forall>s\<in>set sl. int (length s) \<le> L"
        unfolding sl_def using range_slices_bound [of _ 0 "nat L" part] Cons.prems(1) by fastforce
      have "\<exists>chunks' current' clen'.
              chunk_loop L parts (chunks1 @ sl) [] 0 = Inr (chunks', current', clen') \<and>
              (\<forall>c\<in>set chunks'. int (length c) \<le> L) \<and>
              int (length (join_space current')) \<le> L \<and>
              (\<forall>p\<in>set current'. is_token p) \<and>
              concat (map py_split chunks') @ current' =
                concat (map py_split (chunks1 @ sl)) @ [] @
                concat (map (range_slices 0 (nat L)) parts)"
      proof (rule Cons.IH)
        show "0 < L" by (rule Cons.prems(1))
        show "\<forall>p\<in>set parts. is_token p" by (rule toks)
        show "\<forall>c\<in>set (chunks1 @ sl). int (length c) \<le> L" using c1_bound sl_bound by auto
        show "int (length (join_space [])) \<le> L" using Cons.prems(1) by simp
      qed simp_all
      then show ?thesis
        unfolding step by (simp add: c1_split py_split_slices [OF sl_tok] sl_def [symmetric])
    next
      case short: False
      have step: "chunk_loop L (part # parts) chunks current clen =
                  chunk_loop L parts chunks1 [part] (int (length part) + 1)"
        using False short by (simp add: part_len_def chunks1_def Let_def)
      have rs: "range_slices 0 (nat L) part = [part]"
        using ne short by (intro range_slices_short) simp_all
      have "\<exists>chunks' current' clen'.
              chunk_loop L parts chunks1 [part] (int (length part) + 1)
                = Inr (chunks', current', clen') \<and>
              (\<forall>c\<in>set chunks'. int (length c) \<le> L) \<and>
              int (length (join_space current')) \<le> L \<and>
              (\<forall>p\<in>set current'. is_token p) \<and>
              concat (map py_split chunks') @ current' =
                concat (map py_split chunks1) @ [part] @
                concat (map (range_slices 0 (nat L)) parts)"
      proof (rule Cons.IH)
        show "0 < L" by (rule Cons.prems(1))
        show "\<forall>p\<in>set parts. is_token p" by (rule toks)
        show "\<forall>p\<in>set [part]. is_token p" using tok by simp
        show "int (length (join_space [part])) \<le> L" using short by simp
        show "\<forall>c\<in>set chunks1. int (length c) \<le> L" by (rule c1_bound)
      qed simp_all
      then show ?thesis unfolding step by (simp add: c1_split rs)
    qed
  qed
qed

lemma split_into_chunks_ok:
  assumes "0 < L"
  shows "\<exists>cs. split_into_chunks T L = Inr cs \<and> (\<forall>c\<in>set cs. int (length c) \<le> L) \<and>
           concat (map py_split cs) = concat (map (range_slices 0 (nat L)) (py_split T))"
proof (cases "T = []")
  case True
  then show ?thesis by (simp add: split_into_chunks_def py_split_def)
next
  case ne: False
  show ?thesis
  proof (cases "int (length T) \<le> L")
    case True
    have "range_slices 0 (nat L) t = [t]" if "t \<in> set (py_split T)" for t
    proof (rule range_slices_short)
      show "t \<noteq> []" using py_split_tokens [OF that] by (simp add: is_token_iff)
      show "length t \<le> nat L" using py_split_length [OF that] True by simp
    qed
    then have "map (range_slices 0 (nat L)) (py_split T) = map (\<lambda>t. [t]) (py_split T)"
      by simp
    then have "concat (map (range_slices 0 (nat L)) (py_split T)) = py_split T"
      by (simp only: concat_singletons)
    then show ?thesis using ne True by (simp add: split_into_chunks_def)
  next
    case False
    obtain chunks' current' clen' where
      r: "chunk_loop L (py_split T) [] [] 0 = Inr (chunks', current', clen')"
      and b: "\<forall>c\<in>set chunks'. int (length c) \<le> L"
      and j: "int (length (join_space current')) \<le> L"
      and t: "\<forall>p\<in>set current'. is_token p"
      and e: "concat (map py_split chunks') @ current' =
                concat (map py_split []) @ [] @ concat (map (range_slices 0 (nat L)) (py_split T))"
      using chunk_loop_ok [of L "py_split T" "[]" 0 "[]"] assms py_split_tokens by auto
    have s: "split_into_chunks T L =
             Inr (if current' \<noteq> [] then chunks' @ [join_space current'] else chunks')"
      using ne False r by (simp add: split_into_chunks_def)
    show ?thesis unfolding s using b j e flush_split [OF t, of chunks'] by auto
  qed
qed

lemma ceil_div_nat:
  assumes "0 < L"
  shows "int ((n + L - 1) div L) = \<lceil>real n / real L\<rceil>"
proof -
  define q where "q = (n + L - 1) div L"
  have a: "q * L \<le> n + L - 1" unfolding q_def by simp
  have b: "n + L - 1 < L + q * L" unfolding q_def using assms by (rule dividend_less_div_times)
  from b assms have u: "n \<le> q * L" by simp
  from a assms have l: "q * L < n + L" by simp
  have "real n / real L \<le> real q"
    using assms u by (simp add: pos_divide_le_eq flip: of_nat_mult)
  moreover have "real q - 1 < real n / real L"
  proof -
    have "real (q * L) < real (n + L)" using l by (simp only: of_nat_less_iff)
    then have "(real q - 1) * real L < real n" by (simp add: algebra_simps)
    then show ?thesis using assms by (simp add: pos_less_divide_eq)
  qed
  ultimately have "\<lceil>real n / real L\<rceil> = int q"
    by (intro ceiling_unique) simp_all
  then show ?thesis by (simp add: q_def)
qed

lemma range_slices_nonempty: "0 < step \<Longrightarrow> part \<noteq> [] \<Longrightarrow> range_slices 0 step part \<noteq> []"
  by (subst range_slices.simps) simp

lemma split_single_long_token:
  assumes "0 < L" "is_token T" "int (length T) > L"
  shows "split_into_chunks T L = Inr (range_slices 0 (nat L) T)"
proof -
  have ne: "T \<noteq> []" using assms(2) by (simp add: is_token_iff)
  have "chunk_loop L [T] [] [] 0 = Inr (range_slices 0 (nat L) T, [], 0)"
    using assms(1,3) by (simp add: char_slices_pos)
  then show ?thesis
    using ne assms(3) by (simp add: split_into_chunks_def py_split_token [OF assms(2)])
qed

section \<open>The chunker: claims\<close>

text \<open>
  Claim C10. A non-empty text made of whitespace only and longer than \<open>max_length\<close> has no
  token, so \<open>split_into_chunks\<close> returns the empty list (for any \<open>max_length\<close>, the loop
  body never runs). A text with at least one non-whitespace code point gives at least one
  chunk for every positive \<open>max_length\<close>.
\<close>

theorem whitespace_only_gives_no_chunk:
  "(T \<noteq> [] \<and> list_all is_space T \<and> int (length T) > L \<longrightarrow> split_into_chunks T L = Inr []) \<and>
   (0 < L \<and> list_ex (\<lambda>c. \<not> is_space c) T \<longrightarrow>
      (\<exists>cs. split_into_chunks T L = Inr cs \<and> cs \<noteq> []))"
proof (intro conjI impI)
  assume "T \<noteq> [] \<and> list_all is_space T \<and> int (length T) > L"
  then show "split_into_chunks T L = Inr []"
    by (simp add: split_into_chunks_def py_split_all_space)
next
  assume h: "0 < L \<and> list_ex (\<lambda>c. \<not> is_space c) T"
  then have tokens: "py_split T \<noteq> []" by (intro py_split_nonempty) (simp add: list_ex_iff)
  from h obtain cs where cs: "split_into_chunks T L = Inr cs"
    and eq: "concat (map py_split cs) = concat (map (range_slices 0 (nat L)) (py_split T))"
    using split_into_chunks_ok [of L T] by auto
  obtain t ts where t: "py_split T = t # ts" using tokens by (cases "py_split T") auto
  then have "is_token t" using py_split_tokens [of t T] by simp
  then have "range_slices 0 (nat L) t \<noteq> []"
    using h by (intro range_slices_nonempty) (simp_all add: is_token_iff)
  then have "concat (map py_split cs) \<noteq> []" unfolding eq t by simp
  then have "cs \<noteq> []" by auto
  with cs show "\<exists>cs. split_into_chunks T L = Inr cs \<and> cs \<noteq> []" by simp
qed

theorem whitespace_only_gives_no_chunk_witness:
  "[32, 10, 9] \<noteq> ([]::pstr) \<and> list_all is_space [32, 10, 9] \<and> int (length [32::nat, 10, 9]) > 2 \<and>
   split_into_chunks [32, 10, 9] 2 = Inr [] \<and>
   (0::int) < 2 \<and> list_ex (\<lambda>c. \<not> is_space c) [32, 97, 32] \<and>
   (\<exists>cs. split_into_chunks [32, 97, 32] 2 = Inr cs \<and> cs \<noteq> [])"
proof -
  have h1: "[32, 10, 9] \<noteq> ([]::pstr) \<and> list_all is_space [32, 10, 9] \<and> int (length [32::nat, 10, 9]) > 2"
    by (simp add: is_space_def)
  have h2: "(0::int) < 2 \<and> list_ex (\<lambda>c. \<not> is_space c) [32, 97, 32]"
    by (simp add: is_space_def)
  from h1 h2 show ?thesis
    using whitespace_only_gives_no_chunk [of "[32, 10, 9]" 2]
      whitespace_only_gives_no_chunk [of "[32, 97, 32]" 2]
    by blast
qed

text \<open>
  Claim C7. For every text \<open>T\<close> and every limit \<open>L > 0\<close> the call returns chunks, each of
  length at most \<open>L\<close>; the empty text gives the empty list for every \<open>L\<close> (the guard
  \<open>if not text: return []\<close> comes first); and every other text with \<open>len(T) \<le> L\<close> gives
  \<open>[T]\<close>.
\<close>

theorem split_chunks_bounded:
  "(0 < L \<longrightarrow> (\<exists>cs. split_into_chunks T L = Inr cs \<and> (\<forall>c\<in>set cs. int (length c) \<le> L))) \<and>
   (0 < L \<and> T \<noteq> [] \<and> int (length T) \<le> L \<longrightarrow> split_into_chunks T L = Inr [T]) \<and>
   split_into_chunks [] L = Inr []"
proof (intro conjI impI)
  assume "0 < L"
  then show "\<exists>cs. split_into_chunks T L = Inr cs \<and> (\<forall>c\<in>set cs. int (length c) \<le> L)"
    using split_into_chunks_ok [of L T] by blast
next
  assume "0 < L \<and> T \<noteq> [] \<and> int (length T) \<le> L"
  then show "split_into_chunks T L = Inr [T]" by (simp add: split_into_chunks_def)
next
  show "split_into_chunks [] L = Inr []" by (simp add: split_into_chunks_def)
qed

theorem split_chunks_bounded_witness:
  "(0::int) < 3 \<and>
   (\<exists>cs. split_into_chunks [97, 98, 32, 99, 100] 3 = Inr cs \<and> list_all (\<lambda>c. int (length c) \<le> 3) cs) \<and>
   [97, 98] \<noteq> ([]::pstr) \<and> int (length [97::nat, 98]) \<le> 3 \<and>
   split_into_chunks [97, 98] 3 = Inr [[97, 98]] \<and>
   split_into_chunks [] 3 = Inr []"
proof -
  have h1: "(0::int) < 3" by simp
  have h2: "(0::int) < 3 \<and> [97, 98] \<noteq> ([]::pstr) \<and> int (length [97::nat, 98]) \<le> 3" by simp
  show ?thesis
    using h1 h2 split_chunks_bounded [of 3 "[97, 98, 32, 99, 100]"]
      split_chunks_bounded [of 3 "[97, 98]"]
    by (simp add: list_all_iff)
qed

lemma join_space_nonempty: "ts \<noteq> [] \<Longrightarrow> hd ts \<noteq> [] \<Longrightarrow> join_space ts \<noteq> []"
  by (induction ts rule: join_space.induct) simp_all

lemma join_space_length:
  "ts \<noteq> [] \<Longrightarrow> Suc (length (join_space ts)) = sum_list (map (\<lambda>t. Suc (length t)) ts)"
  by (induction ts rule: join_space.induct) simp_all

lemma join_space_spaces:
  "\<forall>t\<in>set ts. is_token t \<Longrightarrow> x \<in> set (join_space ts) \<Longrightarrow> is_space x \<Longrightarrow> x = 32"
  by (induction ts rule: join_space.induct) (auto simp: is_token_iff)

lemma single_spaced_join:
  "\<forall>t\<in>set ts. is_token t \<Longrightarrow> ts \<noteq> [] \<Longrightarrow> single_spaced (join_space ts)"
  unfolding single_spaced_def
  by (simp add: py_split_join) (metis hd_in_set is_token_iff join_space_nonempty)

lemma single_spaced_token: "is_token t \<Longrightarrow> single_spaced t"
  unfolding single_spaced_def by (simp add: py_split_token is_token_iff)

lemma chunk_loop_single_spaced:
  assumes "0 < L" "\<forall>p\<in>set parts. is_token p" "\<forall>p\<in>set current. is_token p"
    "\<forall>c\<in>set chunks. single_spaced c"
    "chunk_loop L parts chunks current clen = Inr (chunks', current', clen')"
  shows "(\<forall>c\<in>set chunks'. single_spaced c) \<and> (\<forall>p\<in>set current'. is_token p)"
  using assms
proof (induction parts arbitrary: chunks current clen)
  case Nil
  then show ?case by simp
next
  case (Cons part parts)
  have tok: "is_token part" and toks: "\<forall>p\<in>set parts. is_token p"
    using Cons.prems(2) by simp_all
  define part_len where "part_len = int (length part) + (if current \<noteq> [] then 1 else 0)"
  define chunks1 where
    "chunks1 = (if current \<noteq> [] then chunks @ [join_space current] else chunks)"
  have c1: "\<forall>c\<in>set chunks1. single_spaced c"
    using Cons.prems(3,4) single_spaced_join [of current] by (auto simp: chunks1_def)
  show ?case
  proof (cases "clen + part_len \<le> L")
    case True
    have "chunk_loop L parts chunks (current @ [part]) (clen + part_len)
          = Inr (chunks', current', clen')"
      using Cons.prems(5) True by (simp add: part_len_def Let_def)
    from Cons.IH [OF Cons.prems(1) toks _ Cons.prems(4) this]
    show ?thesis using tok Cons.prems(3) by simp
  next
    case False
    show ?thesis
    proof (cases "int (length part) > L")
      case True
      define sl where "sl = range_slices 0 (nat L) part"
      have eq: "chunk_loop L parts (chunks1 @ sl) [] 0 = Inr (chunks', current', clen')"
        using Cons.prems(1,5) False True
        by (simp add: part_len_def chunks1_def sl_def Let_def char_slices_pos)
      have "\<forall>s\<in>set sl. is_token s"
        unfolding sl_def using tok range_slices_tokens [of part _ 0 "nat L"]
        by (auto simp: is_token_iff)
      then have "\<forall>c\<in>set (chunks1 @ sl). single_spaced c"
        using c1 single_spaced_token by auto
      from Cons.IH [OF Cons.prems(1) toks _ this eq] show ?thesis by simp
    next
      case short: False
      have eq: "chunk_loop L parts chunks1 [part] (int (length part) + 1)
                = Inr (chunks', current', clen')"
        using Cons.prems(5) False short by (simp add: part_len_def chunks1_def Let_def)
      from Cons.IH [OF Cons.prems(1) toks _ c1 eq] show ?thesis using tok by simp
    qed
  qed
qed

lemma split_into_chunks_single_spaced:
  assumes "0 < L" "int (length T) > L" "split_into_chunks T L = Inr cs"
  shows "\<forall>c\<in>set cs. single_spaced c"
proof -
  have ne: "T \<noteq> []" using assms(1,2) by auto
  obtain chunks' current' clen' where
    r: "chunk_loop L (py_split T) [] [] 0 = Inr (chunks', current', clen')"
    using chunk_loop_ok [of L "py_split T" "[]" 0 "[]"] assms(1) py_split_tokens by auto
  have inv: "(\<forall>c\<in>set chunks'. single_spaced c) \<and> (\<forall>p\<in>set current'. is_token p)"
    by (rule chunk_loop_single_spaced [OF assms(1) _ _ _ r]) (auto dest: py_split_tokens)
  have "cs = (if current' \<noteq> [] then chunks' @ [join_space current'] else chunks')"
    using assms(2,3) ne r by (simp add: split_into_chunks_def)
  then show ?thesis using inv single_spaced_join [of current'] by auto
qed

lemma single_spaced_shape:
  assumes "single_spaced c"
  shows "list_all (\<lambda>x. is_space x \<longrightarrow> x = 32) c \<and>
         Suc (length c) = sum_list (map (\<lambda>t. Suc (length t)) (py_split c))"
proof -
  have j: "join_space (py_split c) = c" and ne: "c \<noteq> []"
    using assms by (simp_all add: single_spaced_def)
  have toks: "\<forall>t\<in>set (py_split c). is_token t" using py_split_tokens by blast
  have pne: "py_split c \<noteq> []" using j ne by auto
  have "\<forall>x\<in>set c. is_space x \<longrightarrow> x = 32"
    using join_space_spaces [OF toks] j by auto
  moreover have "Suc (length c) = sum_list (map (\<lambda>t. Suc (length t)) (py_split c))"
    using join_space_length [OF pne] j by simp
  ultimately show ?thesis by (simp add: list_all_iff)
qed

text \<open>
  Claim C8, as stated, has the chunks reproduce exactly the token sequence of the text. The
  text \<open>cde fg\<close> and the single token \<open>cdefg\<close> have different token sequences, and with
  \<open>L = 3\<close> both give the chunks \<open>cde\<close> and \<open>fg\<close>: neither joining the chunks with single
  spaces nor concatenating them gives back the tokens of both texts.
\<close>

theorem chunks_do_not_determine_tokens_counterexample:
  "split_into_chunks [99, 100, 101, 32, 102, 103] 3 = Inr [[99, 100, 101], [102, 103]] \<and>
   split_into_chunks [99, 100, 101, 102, 103] 3 = Inr [[99, 100, 101], [102, 103]] \<and>
   py_split [99, 100, 101, 32, 102, 103] = [[99, 100, 101], [102, 103]] \<and>
   py_split [99, 100, 101, 102, 103] = [[99, 100, 101, 102, 103]] \<and>
   py_split (join_space [[99, 100, 101], [102, 103]]) \<noteq> py_split [99, 100, 101, 102, 103] \<and>
   py_split (concat [[99, 100, 101], [102, 103]]) \<noteq> py_split [99, 100, 101, 32, 102, 103]"
  by (simp add: split_into_chunks_def py_split_def is_space_def char_slices_def
      range_slices.simps)

text \<open>
  Claim C8, amended. For every text \<open>T\<close> and limit \<open>L > 0\<close> the call returns chunks whose
  tokens, read chunk after chunk, are the tokens of \<open>T\<close> in order with every token replaced
  by its slices of \<open>L\<close> code points: a token of length at most \<open>L\<close> is its own single slice,
  a longer token has \<open>ceil(len(token) / L)\<close> slices, each of length at most \<open>L\<close>, and
  concatenating the slices of a token gives the token back. If no token of \<open>T\<close> is longer
  than \<open>L\<close>, the tokens of the chunks are exactly the tokens of \<open>T\<close>. When \<open>len(T) > L\<close>,
  every chunk is non-empty and is its own tokens joined by single spaces: its only
  whitespace is the space (code point 32) and its length is the sum of its tokens' lengths
  plus one for each gap. When \<open>T\<close> is one token longer than \<open>L\<close>, the result is exactly its
  \<open>ceil(len(T) / L)\<close> slices and their concatenation is \<open>T\<close>.
\<close>

theorem chunk_tokens_are_sliced_tokens:
  assumes "0 < L"
  shows "\<exists>cs. split_into_chunks T L = Inr cs \<and>
           concat (map py_split cs) = concat (map (range_slices 0 (nat L)) (py_split T)) \<and>
           map concat (map (range_slices 0 (nat L)) (py_split T)) = py_split T \<and>
           (\<forall>t\<in>set (py_split T).
              (\<forall>s\<in>set (range_slices 0 (nat L) t). int (length s) \<le> L) \<and>
              int (length (range_slices 0 (nat L) t)) = \<lceil>real (length t) / real_of_int L\<rceil> \<and>
              (int (length t) \<le> L \<longrightarrow> range_slices 0 (nat L) t = [t])) \<and>
           ((\<forall>t\<in>set (py_split T). int (length t) \<le> L) \<longrightarrow>
              concat (map py_split cs) = py_split T) \<and>
           (int (length T) > L \<longrightarrow>
              (\<forall>c\<in>set cs. c \<noteq> [] \<and> join_space (py_split c) = c \<and>
                 list_all (\<lambda>x. is_space x \<longrightarrow> x = 32) c \<and>
                 Suc (length c) = sum_list (map (\<lambda>t. Suc (length t)) (py_split c)))) \<and>
           (is_token T \<and> int (length T) > L \<longrightarrow>
              cs = range_slices 0 (nat L) T \<and> concat cs = T \<and>
              int (length cs) = \<lceil>real (length T) / real_of_int L\<rceil>)"
proof -
  have pos: "0 < nat L" using assms by simp
  obtain cs where cs: "split_into_chunks T L = Inr cs"
    and eq: "concat (map py_split cs) = concat (map (range_slices 0 (nat L)) (py_split T))"
    using split_into_chunks_ok [OF assms, of T] by blast
  have regroup: "map concat (map (range_slices 0 (nat L)) (py_split T)) = py_split T"
    by (simp add: range_slices_concat [OF pos] map_idI)
  have count: "int (length (range_slices 0 (nat L) t)) = \<lceil>real (length t) / real_of_int L\<rceil>"
    for t
  proof -
    have "int (length (range_slices 0 (nat L) t)) = int ((length t + nat L - 1) div nat L)"
      using range_slices_length [OF pos, of 0 t] by simp
    also have "\<dots> = \<lceil>real (length t) / real (nat L)\<rceil>" by (rule ceil_div_nat [OF pos])
    also have "real (nat L) = real_of_int L" using assms by simp
    finally show ?thesis .
  qed
  have each: "(\<forall>s\<in>set (range_slices 0 (nat L) t). int (length s) \<le> L) \<and>
              int (length (range_slices 0 (nat L) t)) = \<lceil>real (length t) / real_of_int L\<rceil> \<and>
              (int (length t) \<le> L \<longrightarrow> range_slices 0 (nat L) t = [t])"
    if "t \<in> set (py_split T)" for t
  proof (intro conjI ballI impI)
    fix s assume "s \<in> set (range_slices 0 (nat L) t)"
    then have "length s \<le> nat L" by (rule range_slices_bound)
    then show "int (length s) \<le> L" using assms by linarith
  next
    show "int (length (range_slices 0 (nat L) t)) = \<lceil>real (length t) / real_of_int L\<rceil>"
      by (rule count)
  next
    assume "int (length t) \<le> L"
    moreover have "t \<noteq> []" using py_split_tokens [OF that] by (simp add: is_token_iff)
    ultimately show "range_slices 0 (nat L) t = [t]" by (intro range_slices_short) simp_all
  qed
  have whole: "concat (map py_split cs) = py_split T"
    if "\<forall>t\<in>set (py_split T). int (length t) \<le> L"
  proof -
    have "map (range_slices 0 (nat L)) (py_split T) = map (\<lambda>t. [t]) (py_split T)"
      using that each by simp
    then show ?thesis unfolding eq by (simp only: concat_singletons)
  qed
  have spaced: "c \<noteq> [] \<and> join_space (py_split c) = c \<and>
                 list_all (\<lambda>x. is_space x \<longrightarrow> x = 32) c \<and>
                 Suc (length c) = sum_list (map (\<lambda>t. Suc (length t)) (py_split c))"
    if "int (length T) > L" "c \<in> set cs" for c
  proof -
    have "single_spaced c"
      using split_into_chunks_single_spaced [OF assms that(1) cs] that(2) by blast
    then show ?thesis using single_spaced_shape [of c] by (simp add: single_spaced_def)
  qed
  have single: "cs = range_slices 0 (nat L) T \<and> concat cs = T \<and>
                int (length cs) = \<lceil>real (length T) / real_of_int L\<rceil>"
    if "is_token T \<and> int (length T) > L"
  proof -
    have "cs = range_slices 0 (nat L) T"
      using split_single_long_token [OF assms, of T] that cs by simp
    then show ?thesis using range_slices_concat [OF pos, of 0 T] count [of T] by simp
  qed
  show ?thesis using cs eq regroup each whole spaced single by blast
qed

theorem chunk_tokens_are_sliced_tokens_witness:
  "(0::int) < 3 \<and>
   split_into_chunks [97, 98, 32, 99, 100, 101, 102, 103, 32, 32, 104] 3
     = Inr [[97, 98], [99, 100, 101], [102, 103], [104]] \<and>
   py_split [97, 98, 32, 99, 100, 101, 102, 103, 32, 32, 104]
     = [[97, 98], [99, 100, 101, 102, 103], [104]] \<and>
   concat (map py_split [[97, 98], [99, 100, 101], [102, 103], [104]])
     = concat (map (range_slices 0 3) (py_split [97, 98, 32, 99, 100, 101, 102, 103, 32, 32, 104])) \<and>
   (0::int) < 2 \<and> is_token [97, 98, 99, 100, 101] \<and> int (length [97::nat, 98, 99, 100, 101]) > 2 \<and>
   split_into_chunks [97, 98, 99, 100, 101] 2 = Inr (range_slices 0 2 [97, 98, 99, 100, 101]) \<and>
   range_slices 0 2 [97, 98, 99, 100, 101] = [[97, 98], [99, 100], [101]]"
proof -
  have h3: "(0::int) < 3" and h2: "(0::int) < 2" by simp_all
  have tok: "is_token [97, 98, 99, 100, 101] \<and> int (length [97::nat, 98, 99, 100, 101]) > 2"
    by (simp add: is_token_def is_space_def)
  have e1: "split_into_chunks [97, 98, 32, 99, 100, 101, 102, 103, 32, 32, 104] 3
     = Inr [[97, 98], [99, 100, 101], [102, 103], [104]]"
    by (simp add: split_into_chunks_def py_split_def is_space_def char_slices_def
        range_slices.simps)
  have e2: "py_split [97, 98, 32, 99, 100, 101, 102, 103, 32, 32, 104]
     = [[97, 98], [99, 100, 101, 102, 103], [104]]"
    by (simp add: py_split_def is_space_def)
  have e3: "range_slices 0 2 [97, 98, 99, 100, 101] = [[97, 98], [99, 100], [101]]"
    by (simp add: range_slices.simps)
  obtain cs where a: "split_into_chunks [97, 98, 32, 99, 100, 101, 102, 103, 32, 32, 104] 3 = Inr cs"
    and b: "concat (map py_split cs) = concat (map (range_slices 0 (nat 3))
              (py_split [97, 98, 32, 99, 100, 101, 102, 103, 32, 32, 104]))"
    using chunk_tokens_are_sliced_tokens [OF h3, of "[97, 98, 32, 99, 100, 101, 102, 103, 32, 32, 104]"]
    by blast
  from a e1 have cs: "cs = [[97, 98], [99, 100, 101], [102, 103], [104]]" by simp
  obtain ds where c: "split_into_chunks [97, 98, 99, 100, 101] 2 = Inr ds"
    and d: "is_token [97, 98, 99, 100, 101] \<and> int (length [97::nat, 98, 99, 100, 101]) > 2
            \<longrightarrow> ds = range_slices 0 (nat 2) [97, 98, 99, 100, 101]"
    using chunk_tokens_are_sliced_tokens [OF h2, of "[97, 98, 99, 100, 101]"] by blast
  from d tok have ds: "ds = range_slices 0 2 [97, 98, 99, 100, 101]" by simp
  show ?thesis
    using h3 h2 tok e1 e2 e3 b c unfolding cs ds by simp
qed

section \<open>The rate limiter: claims\<close>

lemma is_allowed_fst:
  "fst (is_allowed rl u now) \<longleftrightarrow>
     int (length (filter (\<lambda>t. t > now - 60) (timestamps_of rl u))) < max_per_minute rl"
  by (simp add: is_allowed_def Let_def)

lemma is_allowed_max: "max_per_minute (snd (is_allowed rl u now)) = max_per_minute rl"
  by (simp add: is_allowed_def Let_def)

lemma is_allowed_same_user:
  "timestamps_of (snd (is_allowed rl u now)) u =
     filter (\<lambda>t. t > now - 60) (timestamps_of rl u) @ (if fst (is_allowed rl u now) then [now] else [])"
  by (simp add: is_allowed_def Let_def timestamps_of_def)

lemma is_allowed_other_user:
  "v \<noteq> u \<Longrightarrow> timestamps_of (snd (is_allowed rl u now)) v = timestamps_of rl v"
  by (simp add: is_allowed_def Let_def timestamps_of_def)

lemma run_calls_Cons:
  "run_calls rl ((u, now) # calls) =
     (u, fst (is_allowed rl u now)) # run_calls (snd (is_allowed rl u now)) calls"
  by (simp add: case_prod_beta)

lemma run_calls_agree:
  assumes "max_per_minute rl1 = max_per_minute rl2" "timestamps_of rl1 u = timestamps_of rl2 u"
    "\<forall>c\<in>set cs. fst c = u"
  shows "run_calls rl1 cs = run_calls rl2 cs"
  using assms
proof (induction cs arbitrary: rl1 rl2)
  case Nil
  then show ?case by simp
next
  case (Cons c cs)
  obtain t where c: "c = (u, t)" using Cons.prems(3) by (cases c) simp
  have f: "fst (is_allowed rl1 u t) = fst (is_allowed rl2 u t)"
    using Cons.prems(1,2) by (simp add: is_allowed_fst)
  have "run_calls (snd (is_allowed rl1 u t)) cs = run_calls (snd (is_allowed rl2 u t)) cs"
  proof (rule Cons.IH)
    show "max_per_minute (snd (is_allowed rl1 u t)) = max_per_minute (snd (is_allowed rl2 u t))"
      using Cons.prems(1) by (simp add: is_allowed_max)
    show "timestamps_of (snd (is_allowed rl1 u t)) u = timestamps_of (snd (is_allowed rl2 u t)) u"
      using Cons.prems(2) f by (simp add: is_allowed_same_user)
    show "\<forall>c\<in>set cs. fst c = u" using Cons.prems(3) by simp
  qed
  then show ?case unfolding c run_calls_Cons using f by simp
qed

lemma run_calls_drop_others:
  "calls_of u (run_calls rl cs) = calls_of u (run_calls rl (filter (\<lambda>c. fst c = u) cs))"
proof (induction cs arbitrary: rl)
  case Nil
  then show ?case by simp
next
  case (Cons c cs)
  obtain v t where c: "c = (v, t)" by (cases c)
  show ?case
  proof (cases "v = u")
    case True
    then show ?thesis
      unfolding c using Cons.IH [of "snd (is_allowed rl u t)"]
      by (simp add: run_calls_Cons calls_of_def del: run_calls.simps)
  next
    case False
    have "calls_of u (run_calls rl (c # cs)) = calls_of u (run_calls (snd (is_allowed rl v t)) cs)"
      unfolding c using False by (simp add: run_calls_Cons calls_of_def del: run_calls.simps)
    also have "\<dots> = calls_of u (run_calls (snd (is_allowed rl v t)) (filter (\<lambda>c. fst c = u) cs))"
      by (rule Cons.IH)
    also have "run_calls (snd (is_allowed rl v t)) (filter (\<lambda>c. fst c = u) cs)
             = run_calls rl (filter (\<lambda>c. fst c = u) cs)"
    proof (rule run_calls_agree)
      show "max_per_minute (snd (is_allowed rl v t)) = max_per_minute rl" by (rule is_allowed_max)
      show "timestamps_of (snd (is_allowed rl v t)) u = timestamps_of rl u"
        using False by (simp add: is_allowed_other_user)
      show "\<forall>c\<in>set (filter (\<lambda>c. fst c = u) cs). fst c = u" by simp
    qed
    finally show ?thesis unfolding c using False by simp
  qed
qed

lemma admit_in_window:
  assumes "\<forall>t\<in>set (timestamps_of rl u). now - 60 < t"
    and "int (length (timestamps_of rl u)) < max_per_minute rl"
  shows "fst (is_allowed rl u now) \<and>
         timestamps_of (snd (is_allowed rl u now)) u = timestamps_of rl u @ [now]"
proof -
  have "filter (\<lambda>t. t > now - 60) (timestamps_of rl u) = timestamps_of rl u"
    using assms(1) by (simp add: filter_id_conv)
  then show ?thesis using assms(2) by (simp add: is_allowed_fst is_allowed_same_user)
qed

lemma reject_in_window:
  assumes "\<forall>t\<in>set (timestamps_of rl u). now - 60 < t"
    and "max_per_minute rl \<le> int (length (timestamps_of rl u))"
  shows "\<not> fst (is_allowed rl u now) \<and>
         timestamps_of (snd (is_allowed rl u now)) u = timestamps_of rl u"
proof -
  have "filter (\<lambda>t. t > now - 60) (timestamps_of rl u) = timestamps_of rl u"
    using assms(1) by (simp add: filter_id_conv)
  then show ?thesis using assms(2) by (simp add: is_allowed_fst is_allowed_same_user)
qed

lemma admit_after_window:
  assumes "\<forall>t\<in>set (timestamps_of rl u). t \<le> now - 60" and "0 < max_per_minute rl"
  shows "fst (is_allowed rl u now) \<and> timestamps_of (snd (is_allowed rl u now)) u = [now]"
proof -
  have "filter (\<lambda>t. t > now - 60) (timestamps_of rl u) = []"
    using assms(1) by (auto simp: filter_empty_conv)
  then show ?thesis using assms(2) by (simp add: is_allowed_fst is_allowed_same_user)
qed

lemma five_then_sixth_then_later:
  assumes lim: "max_per_minute rl = 5" and fresh: "timestamps_of rl u = []"
    and ord: "t1 \<le> t2" "t2 \<le> t3" "t3 \<le> t4" "t4 \<le> t5" "t5 \<le> t1 + 1"
    and six: "t5 \<le> t6" "t6 < t1 + 60" and later: "t6 + 61 \<le> t7"
  shows "map snd (run_calls rl [(u, t1), (u, t2), (u, t3), (u, t4), (u, t5), (u, t6), (u, t7)])
         = [True, True, True, True, True, False, True]"
proof -
  define s1 where "s1 = snd (is_allowed rl u t1)"
  define s2 where "s2 = snd (is_allowed s1 u t2)"
  define s3 where "s3 = snd (is_allowed s2 u t3)"
  define s4 where "s4 = snd (is_allowed s3 u t4)"
  define s5 where "s5 = snd (is_allowed s4 u t5)"
  define s6 where "s6 = snd (is_allowed s5 u t6)"
  have m: "max_per_minute s1 = 5" "max_per_minute s2 = 5" "max_per_minute s3 = 5"
    "max_per_minute s4 = 5" "max_per_minute s5 = 5" "max_per_minute s6 = 5"
    by (simp_all add: s1_def s2_def s3_def s4_def s5_def s6_def is_allowed_max lim)
  have a1: "fst (is_allowed rl u t1) \<and> timestamps_of s1 u = [t1]"
    unfolding s1_def using admit_in_window [of rl u t1] fresh lim by simp
  have a2: "fst (is_allowed s1 u t2) \<and> timestamps_of s2 u = [t1, t2]"
    unfolding s2_def using admit_in_window [of s1 u t2] a1 m(1) ord by simp
  have a3: "fst (is_allowed s2 u t3) \<and> timestamps_of s3 u = [t1, t2, t3]"
    unfolding s3_def using admit_in_window [of s2 u t3] a2 m(2) ord by simp
  have a4: "fst (is_allowed s3 u t4) \<and> timestamps_of s4 u = [t1, t2, t3, t4]"
    unfolding s4_def using admit_in_window [of s3 u t4] a3 m(3) ord by simp
  have a5: "fst (is_allowed s4 u t5) \<and> timestamps_of s5 u = [t1, t2, t3, t4, t5]"
    unfolding s5_def using admit_in_window [of s4 u t5] a4 m(4) ord by simp
  have a6: "\<not> fst (is_allowed s5 u t6) \<and> timestamps_of s6 u = [t1, t2, t3, t4, t5]"
    unfolding s6_def using reject_in_window [of s5 u t6] a5 m(5) ord six by simp
  have a7: "fst (is_allowed s6 u t7)"
    using admit_after_window [of s6 u t7] a6 m(6) ord six later by simp
  show ?thesis
    using a1 a2 a3 a4 a5 a6 a7
    by (simp add: run_calls_Cons s1_def s2_def s3_def s4_def s5_def s6_def
        del: run_calls.simps(2))
qed

text \<open>
  Claim C5. A call keeps, of the user's recorded timestamps, those newer than
  \<open>now - 60\<close> (a timestamp at or before \<open>now - 60\<close> is purged). It answers true exactly
  when fewer than the limit remain; the user's list is then the kept timestamps followed by
  \<open>now\<close>, and on a refusal it is the kept timestamps alone. The limit does not change.
  With the default limit of 5 and a user without recorded timestamps: five calls within one
  second are all admitted, a sixth call less than a minute after the first is refused, and
  a call 61 seconds or more after the sixth is admitted.
\<close>

theorem sliding_window_admission:
  "(fst (is_allowed rl u now) \<longleftrightarrow>
      int (length (filter (\<lambda>t. t > now - 60) (timestamps_of rl u))) < max_per_minute rl) \<and>
   timestamps_of (snd (is_allowed rl u now)) u =
      filter (\<lambda>t. t > now - 60) (timestamps_of rl u) @
      (if fst (is_allowed rl u now) then [now] else []) \<and>
   max_per_minute (snd (is_allowed rl u now)) = max_per_minute rl \<and>
   (max_per_minute rl = RATE_LIMIT_REQUESTS_PER_MINUTE \<and> timestamps_of rl u = [] \<and>
    t1 \<le> t2 \<and> t2 \<le> t3 \<and> t3 \<le> t4 \<and> t4 \<le> t5 \<and> t5 \<le> t1 + 1 \<and>
    t5 \<le> t6 \<and> t6 < t1 + 60 \<and> t6 + 61 \<le> t7 \<longrightarrow>
    map snd (run_calls rl [(u, t1), (u, t2), (u, t3), (u, t4), (u, t5), (u, t6), (u, t7)])
      = [True, True, True, True, True, False, True])"
  using five_then_sixth_then_later [of rl u t1 t2 t3 t4 t5 t6 t7]
  by (simp add: is_allowed_fst is_allowed_same_user is_allowed_max
      RATE_LIMIT_REQUESTS_PER_MINUTE_def del: run_calls.simps)

theorem sliding_window_admission_witness:
  "max_per_minute \<lparr>max_per_minute = 5, timestamps = Map.empty\<rparr> = RATE_LIMIT_REQUESTS_PER_MINUTE \<and>
   timestamps_of \<lparr>max_per_minute = 5, timestamps = Map.empty\<rparr> 7 = [] \<and>
   (0::real) \<le> 1/4 \<and> (1/4::real) \<le> 1/2 \<and> (1/2::real) \<le> 3/4 \<and> (3/4::real) \<le> 1 \<and>
   (1::real) \<le> 0 + 1 \<and> (1::real) \<le> 30 \<and> (30::real) < 0 + 60 \<and> (30::real) + 61 \<le> 91 \<and>
   map snd (run_calls \<lparr>max_per_minute = 5, timestamps = Map.empty\<rparr>
      [(7, 0), (7, 1/4), (7, 1/2), (7, 3/4), (7, 1), (7, 30), (7, 91)])
     = [True, True, True, True, True, False, True]"
proof -
  have h: "max_per_minute \<lparr>max_per_minute = 5, timestamps = Map.empty\<rparr> = RATE_LIMIT_REQUESTS_PER_MINUTE \<and>
   timestamps_of \<lparr>max_per_minute = 5, timestamps = Map.empty\<rparr> 7 = [] \<and>
   (0::real) \<le> 1/4 \<and> (1/4::real) \<le> 1/2 \<and> (1/2::real) \<le> 3/4 \<and> (3/4::real) \<le> 1 \<and>
   (1::real) \<le> 0 + 1 \<and> (1::real) \<le> 30 \<and> (30::real) < 0 + 60 \<and> (30::real) + 61 \<le> 91"
    by (simp add: RATE_LIMIT_REQUESTS_PER_MINUTE_def timestamps_of_def)
  have "map snd (run_calls \<lparr>max_per_minute = 5, timestamps = Map.empty\<rparr>
      [(7, 0), (7, 1/4), (7, 1/2), (7, 3/4), (7, 1), (7, 30), (7, 91)])
     = [True, True, True, True, True, False, True]"
    using h sliding_window_admission
      [of "\<lparr>max_per_minute = 5, timestamps = Map.empty\<rparr>" 7 0 0 "1/4" "1/2" "3/4" 1 30 91]
    by blast
  with h show ?thesis by blast
qed

text \<open>
  Claim C9. Two runs of \<open>is_allowed\<close> calls, on limiters with the same limit and the same
  recorded timestamps for user \<open>u\<close>, whose calls for \<open>u\<close> are the same (same clock readings,
  same order) and whose calls for other users differ arbitrarily, give the same answers to
  \<open>u\<close>'s calls.
\<close>

theorem rate_limiter_noninterference:
  assumes "max_per_minute rl1 = max_per_minute rl2"
    and "timestamps_of rl1 u = timestamps_of rl2 u"
    and "filter (\<lambda>c. fst c = u) cs1 = filter (\<lambda>c. fst c = u) cs2"
  shows "calls_of u (run_calls rl1 cs1) = calls_of u (run_calls rl2 cs2)"
proof -
  have "calls_of u (run_calls rl1 cs1) = calls_of u (run_calls rl1 (filter (\<lambda>c. fst c = u) cs2))"
    using run_calls_drop_others [of u rl1 cs1] assms(3) by simp
  also have "run_calls rl1 (filter (\<lambda>c. fst c = u) cs2) = run_calls rl2 (filter (\<lambda>c. fst c = u) cs2)"
    by (rule run_calls_agree [OF assms(1,2)]) simp
  also have "calls_of u (run_calls rl2 (filter (\<lambda>c. fst c = u) cs2)) = calls_of u (run_calls rl2 cs2)"
    by (rule run_calls_drop_others [symmetric])
  finally show ?thesis .
qed

theorem rate_limiter_noninterference_witness:
  "max_per_minute \<lparr>max_per_minute = 2, timestamps = Map.empty\<rparr>
     = max_per_minute \<lparr>max_per_minute = 2, timestamps = Map.empty(5 \<mapsto> [1/2])\<rparr> \<and>
   timestamps_of \<lparr>max_per_minute = 2, timestamps = Map.empty\<rparr> 1
     = timestamps_of \<lparr>max_per_minute = 2, timestamps = Map.empty(5 \<mapsto> [1/2])\<rparr> 1 \<and>
   filter (\<lambda>c. fst c = (1::int)) [(1, 0::real), (2, 1), (1, 2), (2, 3), (1, 4), (2, 5), (1, 70)]
     = filter (\<lambda>c. fst c = 1) [(5, 0), (1, 0), (1, 2), (5, 3), (5, 7/2), (1, 4), (1, 70), (3, 71)] \<and>
   calls_of 1 (run_calls \<lparr>max_per_minute = 2, timestamps = Map.empty\<rparr>
      [(1, 0), (2, 1), (1, 2), (2, 3), (1, 4), (2, 5), (1, 70)]) = [True, True, False, True] \<and>
   calls_of 1 (run_calls \<lparr>max_per_minute = 2, timestamps = Map.empty(5 \<mapsto> [1/2])\<rparr>
      [(5, 0), (1, 0), (1, 2), (5, 3), (5, 7/2), (1, 4), (1, 70), (3, 71)]) = [True, True, False, True]"
proof -
  have h1: "max_per_minute \<lparr>max_per_minute = 2, timestamps = Map.empty\<rparr>
     = max_per_minute \<lparr>max_per_minute = 2, timestamps = Map.empty(5 \<mapsto> [1/2])\<rparr>"
    by simp
  have h2: "timestamps_of \<lparr>max_per_minute = 2, timestamps = Map.empty\<rparr> 1
     = timestamps_of \<lparr>max_per_minute = 2, timestamps = Map.empty(5 \<mapsto> [1/2])\<rparr> 1"
    by (simp add: timestamps_of_def)
  have h3: "filter (\<lambda>c. fst c = (1::int)) [(1, 0::real), (2, 1), (1, 2), (2, 3), (1, 4), (2, 5), (1, 70)]
     = filter (\<lambda>c. fst c = 1) [(5, 0), (1, 0), (1, 2), (5, 3), (5, 7/2), (1, 4), (1, 70), (3, 71)]"
    by simp
  have e: "calls_of 1 (run_calls \<lparr>max_per_minute = 2, timestamps = Map.empty\<rparr>
      [(1, 0), (2, 1), (1, 2), (2, 3), (1, 4), (2, 5), (1, 70)]) = [True, True, False, True]"
    by (simp add: is_allowed_def timestamps_of_def calls_of_def Let_def)
  have r: "calls_of 1 (run_calls \<lparr>max_per_minute = 2, timestamps = Map.empty\<rparr>
      [(1, 0), (2, 1), (1, 2), (2, 3), (1, 4), (2, 5), (1, 70)])
    = calls_of 1 (run_calls \<lparr>max_per_minute = 2, timestamps = Map.empty(5 \<mapsto> [1/2])\<rparr>
      [(5, 0), (1, 0), (1, 2), (5, 3), (5, 7/2), (1, 4), (1, 70), (3, 71)])"
    by (rule rate_limiter_noninterference [OF h1 h2 h3])
  have e2: "calls_of 1 (run_calls \<lparr>max_per_minute = 2, timestamps = Map.empty(5 \<mapsto> [1/2])\<rparr>
      [(5, 0), (1, 0), (1, 2), (5, 3), (5, 7/2), (1, 4), (1, 70), (3, 71)]) = [True, True, False, True]"
    by (rule trans [OF r [symmetric] e])
  show ?thesis
    by (intro conjI h1 h2 h3 e e2)
qed

section \<open>The completion client: claims\<close>

lemma py_strip_all_space: "list_all is_space s \<Longrightarrow> py_strip s = []"
  by (auto simp: py_strip_def list_all_iff dest: set_dropWhileD)

lemma py_strip_has_nonspace:
  assumes "py_strip s \<noteq> []"
  shows "\<not> is_space (last (py_strip s))"
proof -
  define xs where "xs = rev (dropWhile is_space s)"
  have ne: "dropWhile is_space xs \<noteq> []" using assms by (simp add: py_strip_def xs_def)
  then have "\<not> is_space (hd (dropWhile is_space xs))" by (rule hd_dropWhile)
  moreover have "last (py_strip s) = hd (dropWhile is_space xs)"
    using ne by (simp add: py_strip_def xs_def last_rev)
  ultimately show ?thesis by simp
qed

lemma check_content_ok:
  "check_content content = Inr v \<Longrightarrow> v \<noteq> [] \<and> \<not> list_all is_space v"
proof -
  assume a: "check_content content = Inr v"
  then obtain c where c: "content = Some c" and v: "v = py_strip c" and ne: "py_strip c \<noteq> []"
    by (auto simp: check_content_def split: option.splits if_splits)
  have "\<not> is_space (last v)" unfolding v using ne by (rule py_strip_has_nonspace)
  moreover have "last v \<in> set v" using ne v by simp
  ultimately show ?thesis using ne v by (auto simp: list_all_iff)
qed

lemma attempt_once_ok:
  "attempt_once r = Inr v \<Longrightarrow> v \<noteq> [] \<and> \<not> list_all is_space v"
  by (auto simp: attempt_once_def split: sum.splits dest: check_content_ok)

lemma retry_loop_char:
  "attempt < R \<longrightarrow>
     attempt < attempts (retry_loop R tr attempt last_error slept) \<and>
     attempts (retry_loop R tr attempt last_error slept) \<le> R \<and>
     outcome (retry_loop R tr attempt last_error slept)
       = attempt_once (tr (attempts (retry_loop R tr attempt last_error slept) - 1)) \<and>
     (\<forall>j. attempt \<le> j \<and> j < attempts (retry_loop R tr attempt last_error slept) - 1
          \<longrightarrow> isl (attempt_once (tr j))) \<and>
     (attempts (retry_loop R tr attempt last_error slept) < R
          \<longrightarrow> \<not> isl (outcome (retry_loop R tr attempt last_error slept))) \<and>
     sleeps (retry_loop R tr attempt last_error slept)
       = slept @ map (\<lambda>k. 2 ^ k) [attempt..<attempts (retry_loop R tr attempt last_error slept) - 1]"
proof (induction R tr attempt last_error slept rule: retry_loop.induct)
  case (1 R tr attempt last_error slept)
  show ?case
  proof
    assume lt: "attempt < R"
    show "attempt < attempts (retry_loop R tr attempt last_error slept) \<and>
     attempts (retry_loop R tr attempt last_error slept) \<le> R \<and>
     outcome (retry_loop R tr attempt last_error slept)
       = attempt_once (tr (attempts (retry_loop R tr attempt last_error slept) - 1)) \<and>
     (\<forall>j. attempt \<le> j \<and> j < attempts (retry_loop R tr attempt last_error slept) - 1
          \<longrightarrow> isl (attempt_once (tr j))) \<and>
     (attempts (retry_loop R tr attempt last_error slept) < R
          \<longrightarrow> \<not> isl (outcome (retry_loop R tr attempt last_error slept))) \<and>
     sleeps (retry_loop R tr attempt last_error slept)
       = slept @ map (\<lambda>k. 2 ^ k) [attempt..<attempts (retry_loop R tr attempt last_error slept) - 1]"
    proof (cases "attempt_once (tr attempt)")
      case (Inr v)
      have "retry_loop R tr attempt last_error slept
            = \<lparr>outcome = Inr v, attempts = attempt + 1, sleeps = slept\<rparr>"
        using lt Inr by (subst retry_loop.simps) simp
      then show ?thesis using lt Inr by auto
    next
      case (Inl e)
      define slept' where "slept' = (if attempt < R - 1 then slept @ [2 ^ attempt] else slept)"
      have step: "retry_loop R tr attempt last_error slept
                  = retry_loop R tr (attempt + 1) (Some e) slept'"
        using lt Inl by (subst retry_loop.simps) (simp add: slept'_def)
      show ?thesis
      proof (cases "attempt + 1 < R")
        case True
        define n where "n = attempts (retry_loop R tr (attempt + 1) (Some e) slept')"
        have ih: "attempt + 1 < n \<and> n \<le> R \<and>
          outcome (retry_loop R tr (attempt + 1) (Some e) slept') = attempt_once (tr (n - 1)) \<and>
          (\<forall>j. attempt + 1 \<le> j \<and> j < n - 1 \<longrightarrow> isl (attempt_once (tr j))) \<and>
          (n < R \<longrightarrow> \<not> isl (outcome (retry_loop R tr (attempt + 1) (Some e) slept'))) \<and>
          sleeps (retry_loop R tr (attempt + 1) (Some e) slept')
            = slept' @ map (\<lambda>k. 2 ^ k) [attempt + 1..<n - 1]"
          using "1.IH" [OF lt Inl] True unfolding slept'_def n_def by blast
        have s: "slept' = slept @ [2 ^ attempt]" using True by (simp add: slept'_def)
        have "attempt < n - 1" using ih by linarith
        then have u: "[attempt..<n - 1] = attempt # [attempt + 1..<n - 1]"
          by (simp add: upt_conv_Cons)
        have j: "\<forall>j. attempt \<le> j \<and> j < n - 1 \<longrightarrow> isl (attempt_once (tr j))"
        proof (intro allI impI)
          fix j assume "attempt \<le> j \<and> j < n - 1"
          then have "j = attempt \<or> (attempt + 1 \<le> j \<and> j < n - 1)" by auto
          then show "isl (attempt_once (tr j))" using Inl ih by auto
        qed
        have sl: "sleeps (retry_loop R tr (attempt + 1) (Some e) slept')
                    = slept @ map (\<lambda>k. 2 ^ k) [attempt..<n - 1]"
          unfolding u using ih by (simp add: s)
        have le: "attempt < n" using ih by simp
        show ?thesis
          unfolding step n_def [symmetric] using ih j sl le by blast
      next
        case False
        then have R: "R = attempt + 1" using lt by simp
        have "retry_loop R tr (attempt + 1) (Some e) slept'
              = \<lparr>outcome = Inl e, attempts = attempt + 1, sleeps = slept\<rparr>"
          using R by (subst retry_loop.simps) (simp add: slept'_def)
        then show ?thesis unfolding step using Inl R by auto
      qed
    qed
  qed
qed

lemma call_deepseek_char:
  "1 \<le> attempts (call_deepseek tr sp um) \<and>
   attempts (call_deepseek tr sp um) \<le> DEEPSEEK_RETRY_ATTEMPTS \<and>
   outcome (call_deepseek tr sp um)
     = attempt_once (tr sp um (attempts (call_deepseek tr sp um) - 1)) \<and>
   (\<forall>j. j < attempts (call_deepseek tr sp um) - 1 \<longrightarrow> isl (attempt_once (tr sp um j))) \<and>
   (attempts (call_deepseek tr sp um) < DEEPSEEK_RETRY_ATTEMPTS
      \<longrightarrow> \<not> isl (outcome (call_deepseek tr sp um))) \<and>
   sleeps (call_deepseek tr sp um)
     = map (\<lambda>k. 2 ^ k) [0..<attempts (call_deepseek tr sp um) - 1]"
proof -
  have "0 < DEEPSEEK_RETRY_ATTEMPTS" by (simp add: DEEPSEEK_RETRY_ATTEMPTS_def)
  from retry_loop_char [of 0 DEEPSEEK_RETRY_ATTEMPTS "tr sp um" None "[]", rule_format, OF this]
  show ?thesis unfolding call_deepseek_def by auto
qed

lemma call_deepseek_success_at:
  assumes "k < DEEPSEEK_RETRY_ATTEMPTS" "\<forall>j<k. isl (attempt_once (tr sp um j))"
    "attempt_once (tr sp um k) = Inr v"
  shows "call_deepseek tr sp um
         = \<lparr>outcome = Inr v, attempts = k + 1, sleeps = map (\<lambda>j. 2 ^ j) [0..<k]\<rparr>"
proof -
  define n where "n = attempts (call_deepseek tr sp um)"
  note c = call_deepseek_char [of tr sp um, folded n_def]
  have "n - 1 = k"
  proof (rule ccontr)
    assume ne: "n - 1 \<noteq> k"
    show False
    proof (cases "n - 1 < k")
      case True
      then have "isl (attempt_once (tr sp um (n - 1)))" using assms(2) by simp
      moreover have "n < DEEPSEEK_RETRY_ATTEMPTS" using True assms(1) by simp
      ultimately show False using c by metis
    next
      case False
      then have "k < n - 1" using ne by simp
      then have "isl (attempt_once (tr sp um k))" using c by simp
      then show False using assms(3) by simp
    qed
  qed
  moreover have "1 \<le> n" using c by simp
  ultimately have n: "n = k + 1" by simp
  have "outcome (call_deepseek tr sp um) = Inr v \<and> attempts (call_deepseek tr sp um) = k + 1 \<and>
        sleeps (call_deepseek tr sp um) = map (\<lambda>j. 2 ^ j) [0..<k]"
    using c n assms(3) by (simp add: n_def [symmetric])
  then show ?thesis by (cases "call_deepseek tr sp um") simp
qed

lemma call_deepseek_all_fail:
  assumes "\<forall>j<DEEPSEEK_RETRY_ATTEMPTS. isl (attempt_once (tr sp um j))"
  shows "call_deepseek tr sp um
         = \<lparr>outcome = attempt_once (tr sp um (DEEPSEEK_RETRY_ATTEMPTS - 1)),
            attempts = DEEPSEEK_RETRY_ATTEMPTS,
            sleeps = map (\<lambda>j. 2 ^ j) [0..<DEEPSEEK_RETRY_ATTEMPTS - 1]\<rparr>"
proof -
  define n where "n = attempts (call_deepseek tr sp um)"
  note c = call_deepseek_char [of tr sp um, folded n_def]
  have "\<not> n < DEEPSEEK_RETRY_ATTEMPTS"
  proof
    assume lt: "n < DEEPSEEK_RETRY_ATTEMPTS"
    then have "n - 1 < DEEPSEEK_RETRY_ATTEMPTS" by simp
    then have "isl (attempt_once (tr sp um (n - 1)))" using assms by simp
    then show False using c lt by metis
  qed
  then have n: "n = DEEPSEEK_RETRY_ATTEMPTS" using c by simp
  have "outcome (call_deepseek tr sp um) = attempt_once (tr sp um (DEEPSEEK_RETRY_ATTEMPTS - 1)) \<and>
        attempts (call_deepseek tr sp um) = DEEPSEEK_RETRY_ATTEMPTS \<and>
        sleeps (call_deepseek tr sp um) = map (\<lambda>j. 2 ^ j) [0..<DEEPSEEK_RETRY_ATTEMPTS - 1]"
    using c n by (simp add: n_def [symmetric])
  then show ?thesis by (cases "call_deepseek tr sp um") simp
qed

text \<open>
  Claim C3. \<open>call_deepseek\<close> makes between one and three requests
  (\<open>DEEPSEEK_RETRY_ATTEMPTS = 3\<close>) and sleeps \<open>2 ^ j\<close> seconds after the failed attempt \<open>j\<close>
  whenever another attempt follows, so never after the last one. An exception of the
  request is the failure of the attempt, as is a failed empty-response check. If attempt
  \<open>k\<close> (counted from 0) is the first to succeed, its value is returned after exactly
  \<open>k + 1\<close> requests: a transport that fails twice and then succeeds gives the value on the
  third. If all three attempts fail, the error of the last attempt is raised.
\<close>

theorem call_deepseek_retry_policy:
  "DEEPSEEK_RETRY_ATTEMPTS = 3 \<and>
   1 \<le> attempts (call_deepseek tr sp um) \<and> attempts (call_deepseek tr sp um) \<le> 3 \<and>
   sleeps (call_deepseek tr sp um) = map (\<lambda>j. 2 ^ j) [0..<attempts (call_deepseek tr sp um) - 1] \<and>
   attempt_once (Inl e) = Inl e \<and>
   (k < 3 \<and> (\<forall>j<k. isl (attempt_once (tr sp um j))) \<and> attempt_once (tr sp um k) = Inr v \<longrightarrow>
      call_deepseek tr sp um
        = \<lparr>outcome = Inr v, attempts = k + 1, sleeps = map (\<lambda>j. 2 ^ j) [0..<k]\<rparr>) \<and>
   ((\<forall>j<3. isl (attempt_once (tr sp um j))) \<longrightarrow>
      call_deepseek tr sp um
        = \<lparr>outcome = attempt_once (tr sp um 2), attempts = 3, sleeps = [1, 2]\<rparr>)"
proof (intro conjI impI)
  show R: "DEEPSEEK_RETRY_ATTEMPTS = 3" by (simp add: DEEPSEEK_RETRY_ATTEMPTS_def)
  show "1 \<le> attempts (call_deepseek tr sp um)" using call_deepseek_char [of tr sp um] by blast
  show "attempts (call_deepseek tr sp um) \<le> 3"
    using call_deepseek_char [of tr sp um] unfolding R by blast
  show "sleeps (call_deepseek tr sp um)
        = map (\<lambda>j. 2 ^ j) [0..<attempts (call_deepseek tr sp um) - 1]"
    using call_deepseek_char [of tr sp um] by blast
  show "attempt_once (Inl e) = Inl e" by (simp add: attempt_once_def)
next
  assume "k < 3 \<and> (\<forall>j<k. isl (attempt_once (tr sp um j))) \<and> attempt_once (tr sp um k) = Inr v"
  then show "call_deepseek tr sp um
        = \<lparr>outcome = Inr v, attempts = k + 1, sleeps = map (\<lambda>j. 2 ^ j) [0..<k]\<rparr>"
    using call_deepseek_success_at [of k tr sp um v] by (simp add: DEEPSEEK_RETRY_ATTEMPTS_def)
next
  assume "\<forall>j<3. isl (attempt_once (tr sp um j))"
  then have "call_deepseek tr sp um
         = \<lparr>outcome = attempt_once (tr sp um (DEEPSEEK_RETRY_ATTEMPTS - 1)),
            attempts = DEEPSEEK_RETRY_ATTEMPTS,
            sleeps = map (\<lambda>j. 2 ^ j) [0..<DEEPSEEK_RETRY_ATTEMPTS - 1]\<rparr>"
    by (intro call_deepseek_all_fail) (simp add: DEEPSEEK_RETRY_ATTEMPTS_def)
  moreover have "map (\<lambda>j. 2 ^ j) [0..<DEEPSEEK_RETRY_ATTEMPTS - 1] = [1, 2::nat]"
    by (simp add: DEEPSEEK_RETRY_ATTEMPTS_def upt_rec)
  ultimately show "call_deepseek tr sp um
        = \<lparr>outcome = attempt_once (tr sp um 2), attempts = 3, sleeps = [1, 2]\<rparr>"
    by (simp add: DEEPSEEK_RETRY_ATTEMPTS_def)
qed

theorem call_deepseek_retry_policy_witness:
  "call_deepseek
     (\<lambda>sp um k. if k < 2 then Inl (OtherException [48 + k]) else Inr (Some [32, 104, 105, 32]))
     REFINEMENT_SYSTEM_PROMPT [120]
     = \<lparr>outcome = Inr [104, 105], attempts = 3, sleeps = [1, 2]\<rparr> \<and>
   call_deepseek (\<lambda>sp um k. Inl (OtherException [48 + k])) REFINEMENT_SYSTEM_PROMPT [120]
     = \<lparr>outcome = Inl (OtherException [50]), attempts = 3, sleeps = [1, 2]\<rparr>"
proof -
  define tr1 :: transport_fn where
    "tr1 = (\<lambda>sp um k. if k < 2 then Inl (OtherException [48 + k]) else Inr (Some [32, 104, 105, 32]))"
  define tr2 :: transport_fn where "tr2 = (\<lambda>sp um k. Inl (OtherException [48 + k]))"
  have h1: "(2::nat) < 3 \<and> (\<forall>j<2. isl (attempt_once (tr1 REFINEMENT_SYSTEM_PROMPT [120] j))) \<and>
            attempt_once (tr1 REFINEMENT_SYSTEM_PROMPT [120] 2) = Inr [104, 105]"
    by (simp add: tr1_def attempt_once_def check_content_def py_strip_def is_space_def)
  have h2: "\<forall>j<3. isl (attempt_once (tr2 REFINEMENT_SYSTEM_PROMPT [120] j))"
    by (simp add: tr2_def attempt_once_def)
  have a: "call_deepseek tr1 REFINEMENT_SYSTEM_PROMPT [120]
           = \<lparr>outcome = Inr [104, 105], attempts = 3, sleeps = [1, 2]\<rparr>"
    using h1 call_deepseek_retry_policy [of tr1 REFINEMENT_SYSTEM_PROMPT "[120]" _ 2 "[104, 105]"]
    by (simp add: upt_rec)
  have b: "call_deepseek tr2 REFINEMENT_SYSTEM_PROMPT [120]
           = \<lparr>outcome = Inl (OtherException [50]), attempts = 3, sleeps = [1, 2]\<rparr>"
    using h2 call_deepseek_retry_policy [of tr2 REFINEMENT_SYSTEM_PROMPT "[120]"]
    by (simp add: tr2_def attempt_once_def)
  show ?thesis using a b unfolding tr1_def tr2_def by simp
qed

text \<open>
  Claim C4. A response whose content is missing, empty or whitespace only makes the attempt
  fail with the \<open>ValueError\<close> of the empty-response check, and is retried like any failure:
  when all three responses are blank, that \<open>ValueError\<close> is raised. A string returned by
  \<open>call_deepseek\<close> is never empty and never whitespace only.
\<close>

theorem empty_response_is_a_failure:
  "attempt_once (Inr None) = Inl (ValueError (ustr ''Empty response from DeepSeek'')) \<and>
   (list_all is_space c \<longrightarrow>
      attempt_once (Inr (Some c)) = Inl (ValueError (ustr ''Empty response from DeepSeek''))) \<and>
   (outcome (call_deepseek tr sp um) = Inr v \<longrightarrow> v \<noteq> [] \<and> \<not> list_all is_space v) \<and>
   ((\<forall>j<3. \<exists>c. tr sp um j = Inr (Some c) \<and> list_all is_space c) \<longrightarrow>
      call_deepseek tr sp um
        = \<lparr>outcome = Inl (ValueError (ustr ''Empty response from DeepSeek'')),
           attempts = 3, sleeps = [1, 2]\<rparr>)"
proof (intro conjI impI)
  show "attempt_once (Inr None) = Inl (ValueError (ustr ''Empty response from DeepSeek''))"
    by (simp add: attempt_once_def check_content_def)
  have blank: "attempt_once (Inr (Some c)) = Inl (ValueError (ustr ''Empty response from DeepSeek''))"
    if "list_all is_space c" for c
    using py_strip_all_space [OF that] by (simp add: attempt_once_def check_content_def)
  then show "list_all is_space c \<Longrightarrow>
      attempt_once (Inr (Some c)) = Inl (ValueError (ustr ''Empty response from DeepSeek''))" .
  {
    assume "outcome (call_deepseek tr sp um) = Inr v"
    then have "attempt_once (tr sp um (attempts (call_deepseek tr sp um) - 1)) = Inr v"
      using call_deepseek_char [of tr sp um] by simp
    then have "v \<noteq> [] \<and> \<not> list_all is_space v" by (rule attempt_once_ok)
  }
  then show "outcome (call_deepseek tr sp um) = Inr v \<Longrightarrow> v \<noteq> []"
    and "outcome (call_deepseek tr sp um) = Inr v \<Longrightarrow> \<not> list_all is_space v"
    by simp_all
  assume a: "\<forall>j<3. \<exists>c. tr sp um j = Inr (Some c) \<and> list_all is_space c"
  have f: "attempt_once (tr sp um j) = Inl (ValueError (ustr ''Empty response from DeepSeek''))"
    if "j < 3" for j
    using a that blank by auto
  then have g: "\<forall>j<DEEPSEEK_RETRY_ATTEMPTS. isl (attempt_once (tr sp um j))"
    by (simp add: DEEPSEEK_RETRY_ATTEMPTS_def)
  from call_deepseek_all_fail [of tr sp um] g
  show "call_deepseek tr sp um
        = \<lparr>outcome = Inl (ValueError (ustr ''Empty response from DeepSeek'')),
           attempts = 3, sleeps = [1, 2]\<rparr>"
    using f [of 2] by (simp add: DEEPSEEK_RETRY_ATTEMPTS_def upt_rec)
qed

theorem empty_response_is_a_failure_witness:
  "list_all is_space [32, 10] \<and>
   attempt_once (Inr (Some [32, 10])) = Inl (ValueError (ustr ''Empty response from DeepSeek'')) \<and>
   outcome (call_deepseek (\<lambda>sp um k. Inr (Some [32, 104, 105, 32])) REFINEMENT_SYSTEM_PROMPT [120])
     = Inr [104, 105] \<and>
   [104, 105] \<noteq> ([]::pstr) \<and> \<not> list_all is_space [104, 105] \<and>
   call_deepseek (\<lambda>sp um k. Inr (Some [])) REFINEMENT_SYSTEM_PROMPT [120]
     = \<lparr>outcome = Inl (ValueError (ustr ''Empty response from DeepSeek'')),
        attempts = 3, sleeps = [1, 2]\<rparr>"
proof -
  have h1: "list_all is_space [32, 10]" by (simp add: is_space_def)
  have h2: "outcome (call_deepseek (\<lambda>sp um k. Inr (Some [32, 104, 105, 32]))
              REFINEMENT_SYSTEM_PROMPT [120]) = Inr [104, 105]"
    by (simp add: call_deepseek_def DEEPSEEK_RETRY_ATTEMPTS_def retry_loop.simps attempt_once_def
        check_content_def py_strip_def is_space_def)
  have h3: "\<forall>j<3. \<exists>c. (\<lambda>sp um k. Inr (Some [])) REFINEMENT_SYSTEM_PROMPT [120::nat] (j::nat)
              = (Inr (Some c) :: py_exn + pstr option) \<and> list_all is_space c"
    by simp
  show ?thesis
    using h1 h2 h3
      empty_response_is_a_failure [of "[32, 10]" "\<lambda>sp um k. Inr (Some [32, 104, 105, 32])"
        REFINEMENT_SYSTEM_PROMPT "[120]" "[104, 105]"]
      empty_response_is_a_failure [of _ "\<lambda>sp um k. Inr (Some [])" REFINEMENT_SYSTEM_PROMPT "[120]"]
    by simp
qed

section \<open>The handlers: claims\<close>

lemma send_all_ok: "(\<forall>j. i \<le> j \<longrightarrow> tg j = None) \<Longrightarrow> send_all tg i ms = (None, ms)"
  by (induction ms arbitrary: i) simp_all

lemma result_messages_ok: "\<exists>msgs. result_messages result = Inr msgs"
proof (cases "int (length result) \<le> MAX_MESSAGE_LENGTH")
  case True
  then show ?thesis by (simp add: result_messages_def)
next
  case False
  have "0 < MAX_MESSAGE_LENGTH" by (simp add: MAX_MESSAGE_LENGTH_def)
  from split_into_chunks_ok [OF this, of result]
  obtain cs where "split_into_chunks result MAX_MESSAGE_LENGTH = Inr cs" by blast
  then show ?thesis using False by (simp add: result_messages_def)
qed

lemma after_error_session: "fst (snd (after_error ev i e closing st ud rl sent)) = ud"
  by (simp add: after_error_def split: prod.splits option.splits)

lemma after_error_limiter: "fst (snd (snd (after_error ev i e closing st ud rl sent))) = rl"
  by (simp add: after_error_def split: prod.splits option.splits)

lemma after_error_state: "fst (after_error ev i e closing st ud rl sent) = Inr s \<Longrightarrow> s = st"
  by (simp add: after_error_def split: prod.splits option.splits)

lemma after_error_returns:
  assumes "\<forall>j. i < j \<longrightarrow> telegram ev j = None"
  shows "fst (after_error ev i e closing st ud rl sent) = Inr st"
proof -
  have "send_all (telegram ev) (i + 1) ms = (None, ms)" for ms
    using assms by (intro send_all_ok) simp
  then have "fst (report_error ev i e closing) = None"
    by (cases "telegram ev i") (simp_all add: report_error_def del: send_all.simps)
  then obtain reported where "report_error ev i e closing = (None, reported)"
    by (cases "report_error ev i e closing") simp
  then show ?thesis by (simp add: after_error_def)
qed

lemma delete_status_ok:
  "telegram ev i = None \<or> (\<exists>m. telegram ev i = Some (BadRequest m)) \<Longrightarrow>
   fst (delete_status ev i) = None"
  by (auto simp: delete_status_def)

lemma deliver_ok:
  assumes "\<forall>j. i \<le> j \<longrightarrow> telegram ev j = None"
  shows "\<exists>msgs. deliver ev i result
           = (None, i + 1 + length msgs, ReplyText MSG_HERE_PROMPT None # msgs)"
proof -
  obtain msgs where m: "result_messages result = Inr msgs" using result_messages_ok by blast
  have "send_all (telegram ev) (i + 1) msgs = (None, msgs)"
    using assms by (intro send_all_ok) simp
  then show ?thesis using assms m by (simp add: deliver_def)
qed


lemma description_try_history:
  assumes "outcome (call_deepseek (transport ev) (SYSTEM_PROMPTS cat) ut) = Inr result"
    and "fst (delete_status ev 1) = None"
  shows "history (fst (snd (description_try ev cat cv ut ud rl)))
         = Some (last_items HISTORY_MAX_ITEMS (history_of ud @ [history_entry cv result]))"
proof -
  obtain dl where dl: "delete_status ev 1 = (None, dl)"
    using assms(2) by (cases "delete_status ev 1") simp
  show ?thesis using assms(1) dl
    by (simp add: description_try_def Let_def after_error_session
        split: prod.splits option.splits)
qed

lemma description_try_success:
  assumes "outcome (call_deepseek (transport ev) (SYSTEM_PROMPTS cat) ut) = Inr result"
    and "fst (delete_status ev 1) = None"
    and "\<forall>j. 2 \<le> j \<longrightarrow> telegram ev j = None"
  shows "fst (description_try ev cat cv ut ud rl) = Inr PROMPT_SHOWN \<and>
         fst (snd (description_try ev cat cv ut ud rl))
         = ud\<lparr>history := Some (last_items HISTORY_MAX_ITEMS
                               (history_of ud @ [history_entry cv result])),
              last_prompt := Some result, last_category := Some cv,
              original_description := Some ut\<rparr>"
proof -
  obtain msgs where d: "deliver ev 2 result
      = (None, 2 + 1 + length msgs, ReplyText MSG_HERE_PROMPT None # msgs)"
    using deliver_ok [OF assms(3), of result] by blast
  have t: "telegram ev (2 + 1 + length msgs) = None" using assms(3) by simp
  obtain dl where dl: "delete_status ev 1 = (None, dl)"
    using assms(2) by (cases "delete_status ev 1") simp
  show ?thesis using assms(1) d t dl by (simp add: description_try_def Let_def)
qed

lemma description_try_inversion:
  assumes "fst (description_try ev cat cv ut ud rl) = Inr PROMPT_SHOWN"
  shows "\<exists>result. outcome (call_deepseek (transport ev) (SYSTEM_PROMPTS cat) ut) = Inr result \<and>
         fst (snd (description_try ev cat cv ut ud rl))
         = ud\<lparr>history := Some (last_items HISTORY_MAX_ITEMS
                               (history_of ud @ [history_entry cv result])),
              last_prompt := Some result, last_category := Some cv,
              original_description := Some ut\<rparr>"
  using assms
  by (auto simp: description_try_def Let_def
      split: sum.splits prod.splits option.splits dest: after_error_state)

lemma reply_only_state: "fst (reply_only ev msg st ud rl) = Inr s \<Longrightarrow> s = st"
  by (simp add: reply_only_def split: option.splits)

lemma reply_only_session: "fst (snd (reply_only ev msg st ud rl)) = ud"
  by (simp add: reply_only_def split: option.splits)

lemma handle_description_reaches:
  assumes "category ud = Some cv" "cv \<noteq> []" "Category_of cv = Some cat"
    and "user_text_of upd \<noteq> []"
    and "fst (is_allowed rl (user_id_of upd) (monotonic ev))"
    and "telegram ev 0 = None"
  shows "handle_description ev upd ud rl
         = description_try ev cat cv (user_text_of upd) ud
             (snd (is_allowed rl (user_id_of upd) (monotonic ev)))"
proof -
  obtain rl' where a: "is_allowed rl (user_id_of upd) (monotonic ev) = (True, rl')"
    using assms(5) by (cases "is_allowed rl (user_id_of upd) (monotonic ev)") simp
  show ?thesis using assms(1-4,6) a by (simp add: handle_description_def Let_def)
qed

lemma handle_description_inversion:
  assumes "fst (handle_description ev upd ud rl) = Inr PROMPT_SHOWN"
  shows "\<exists>cv cat result. category ud = Some cv \<and> Category_of cv = Some cat \<and>
           outcome (call_deepseek (transport ev) (SYSTEM_PROMPTS cat) (user_text_of upd))
             = Inr result \<and>
           fst (snd (handle_description ev upd ud rl))
           = ud\<lparr>history := Some (last_items HISTORY_MAX_ITEMS
                                 (history_of ud @ [history_entry cv result])),
                last_prompt := Some result, last_category := Some cv,
                original_description := Some (user_text_of upd)\<rparr>"
  using assms
  by (auto simp: handle_description_def Let_def
      split: option.splits if_splits prod.splits bool.splits
      dest: reply_only_state description_try_inversion)


lemma refinement_try_history: "history (fst (snd (refinement_try ev p ut ud rl))) = history ud"
  by (simp add: refinement_try_def Let_def after_error_session
      split: sum.splits prod.splits option.splits)

lemma refinement_try_state: "fst (refinement_try ev p ut ud rl) = Inr s \<Longrightarrow> s = PROMPT_SHOWN"
  by (auto simp: refinement_try_def Let_def
      split: sum.splits prod.splits option.splits dest: after_error_state)

lemma refinement_try_last_prompt:
  assumes "outcome (call_deepseek (transport ev) REFINEMENT_SYSTEM_PROMPT
                      (refinement_message p ut)) = Inr result"
    and "fst (delete_status ev 1) = None"
  shows "fst (snd (refinement_try ev p ut ud rl)) = ud\<lparr>last_prompt := Some result\<rparr>"
proof -
  obtain dl where dl: "delete_status ev 1 = (None, dl)"
    using assms(2) by (cases "delete_status ev 1") simp
  show ?thesis using assms(1) dl
    by (simp add: refinement_try_def Let_def after_error_session
        split: prod.splits option.splits)
qed

lemma refinement_try_success:
  assumes "outcome (call_deepseek (transport ev) REFINEMENT_SYSTEM_PROMPT
                      (refinement_message p ut)) = Inr result"
    and "fst (delete_status ev 1) = None"
    and "\<forall>j. 2 \<le> j \<longrightarrow> telegram ev j = None"
  shows "fst (refinement_try ev p ut ud rl) = Inr PROMPT_SHOWN"
proof -
  obtain msgs where d: "deliver ev 2 result
      = (None, 2 + 1 + length msgs, ReplyText MSG_HERE_PROMPT None # msgs)"
    using deliver_ok [OF assms(3), of result] by blast
  have t: "telegram ev (2 + 1 + length msgs) = None" using assms(3) by simp
  obtain dl where dl: "delete_status ev 1 = (None, dl)"
    using assms(2) by (cases "delete_status ev 1") simp
  show ?thesis using assms(1) d t dl by (simp add: refinement_try_def Let_def)
qed

lemma handle_refinement_reaches:
  assumes "last_prompt ud = Some p" "p \<noteq> []"
    and "user_text_of upd \<noteq> []"
    and "fst (is_allowed rl (user_id_of upd) (monotonic ev))"
    and "telegram ev 0 = None"
  shows "handle_refinement ev upd ud rl
         = refinement_try ev p (user_text_of upd) ud
             (snd (is_allowed rl (user_id_of upd) (monotonic ev)))"
proof -
  obtain rl' where a: "is_allowed rl (user_id_of upd) (monotonic ev) = (True, rl')"
    using assms(4) by (cases "is_allowed rl (user_id_of upd) (monotonic ev)") simp
  show ?thesis using assms(1-3,5) a by (simp add: handle_refinement_def Let_def)
qed

lemma handle_refinement_history:
  "history (fst (snd (handle_refinement ev upd ud rl))) = history ud"
  by (simp add: handle_refinement_def Let_def reply_only_session refinement_try_history
      split: option.splits prod.splits bool.splits)


lemma handle_description_history_cases:
  "history (fst (snd (handle_description ev upd ud rl))) = history ud \<or>
   (\<exists>cv result. history (fst (snd (handle_description ev upd ud rl)))
      = Some (last_items HISTORY_MAX_ITEMS (history_of ud @ [history_entry cv result])))"
proof -
  have t: "history (fst (snd (description_try ev cat cv ut ud rl'))) = history ud \<or>
        (\<exists>result. history (fst (snd (description_try ev cat cv ut ud rl')))
           = Some (last_items HISTORY_MAX_ITEMS (history_of ud @ [history_entry cv result])))"
    for cat cv ut rl'
    by (auto simp: description_try_def Let_def after_error_session
        split: sum.splits prod.splits option.splits)
  show ?thesis
  proof (cases "\<exists>cat cv ut rl'. handle_description ev upd ud rl
                  = description_try ev cat cv ut ud rl'")
    case True
    then show ?thesis using t by metis
  next
    case False
    then show ?thesis
      by (auto simp: handle_description_def Let_def reply_only_session
          split: option.splits prod.splits bool.splits; blast)
  qed
qed

lemma last_items_append:
  "last_items n (last_items n xs @ ys) = last_items n (xs @ ys)"
proof (cases "n = 0")
  case True
  then show ?thesis by (simp add: last_items_def)
next
  case False
  show ?thesis
  proof (cases "n \<le> length xs")
    case True
    then show ?thesis using False by (simp add: last_items_def add.commute)
  next
    case False
    then show ?thesis by (simp add: last_items_def)
  qed
qed

lemma last_items_length: "0 < n \<Longrightarrow> length (last_items n xs) \<le> n"
  by (simp add: last_items_def)

lemma last_items_of_six:
  assumes "length es = 6"
  shows "last_items HISTORY_MAX_ITEMS (h @ es) = tl es"
proof -
  have "drop (length h + 6 - 5) (h @ es) = drop 1 es" by simp
  then show ?thesis using assms by (simp add: last_items_def HISTORY_MAX_ITEMS_def drop_Suc)
qed

lemma last_items_suffix: "\<exists>evicted. xs = evicted @ last_items n xs"
proof (cases "n = 0")
  case True
  then show ?thesis by (simp add: last_items_def)
next
  case False
  have "xs = take (length xs - n) xs @ drop (length xs - n) xs" by simp
  then show ?thesis using False unfolding last_items_def by (simp only: if_False) blast
qed

lemma run_descriptions_length: "length (run_descriptions steps ud rl) = length steps"
  by (induction steps arbitrary: ud rl) (auto split: prod.splits)

lemma run_descriptions_history:
  assumes "list_all (\<lambda>r. fst r = Inr PROMPT_SHOWN) (run_descriptions steps ud rl)" "steps \<noteq> []"
  shows "history_of (snd (last (run_descriptions steps ud rl)))
         = last_items HISTORY_MAX_ITEMS
             (history_of ud @ map generated_entry (run_descriptions steps ud rl))"
  using assms
proof (induction steps arbitrary: ud rl)
  case Nil
  then show ?case by simp
next
  case (Cons step steps)
  obtain c ev upd where step: "step = (c, ev, upd)" by (cases step)
  obtain st ud1 rl1 out where
    h: "handle_description ev upd (select_category c ud) rl = (st, ud1, rl1, out)"
    by (cases "handle_description ev upd (select_category c ud) rl")
  have run: "run_descriptions (step # steps) ud rl = (st, ud1) # run_descriptions steps ud1 rl1"
    unfolding step using h by simp
  have st: "st = Inr PROMPT_SHOWN" using Cons.prems(1) unfolding run by simp
  have "fst (handle_description ev upd (select_category c ud) rl) = Inr PROMPT_SHOWN"
    using h st by simp
  from handle_description_inversion [OF this]
  obtain cv result where ud1: "ud1 = (select_category c ud)
      \<lparr>history := Some (last_items HISTORY_MAX_ITEMS
                         (history_of (select_category c ud) @ [history_entry cv result])),
       last_prompt := Some result, last_category := Some cv,
       original_description := Some (user_text_of upd)\<rparr>"
    using h by auto
  have same: "history_of (select_category c ud) = history_of ud"
    by (simp add: history_of_def select_category_def)
  have h1: "history_of ud1
            = last_items HISTORY_MAX_ITEMS (history_of ud @ [generated_entry (st, ud1)])"
    unfolding ud1 same by (simp add: history_of_def generated_entry_def)
  show ?case
  proof (cases "steps = []")
    case True
    then show ?thesis unfolding run using h1 by simp
  next
    case False
    then have ne: "run_descriptions steps ud1 rl1 \<noteq> []"
      using run_descriptions_length [of steps ud1 rl1] by auto
    have "list_all (\<lambda>r. fst r = Inr PROMPT_SHOWN) (run_descriptions steps ud1 rl1)"
      using Cons.prems(1) unfolding run by simp
    from Cons.IH [OF this False]
    have "history_of (snd (last (run_descriptions steps ud1 rl1)))
          = last_items HISTORY_MAX_ITEMS
              (last_items HISTORY_MAX_ITEMS (history_of ud @ [generated_entry (st, ud1)])
               @ map generated_entry (run_descriptions steps ud1 rl1))"
      unfolding h1 .
    also have "\<dots> = last_items HISTORY_MAX_ITEMS
              ((history_of ud @ [generated_entry (st, ud1)])
               @ map generated_entry (run_descriptions steps ud1 rl1))"
      by (rule last_items_append)
    finally show ?thesis unfolding run using ne by simp
  qed
qed

lemma ex_category: "Category_of (Category_value CODE) = Some CODE \<and> Category_value CODE \<noteq> []"
  by (simp add: Category_of_def ustr_def)

lemma ex_code: "Category_of (ustr ''code'') = Some CODE" "ustr ''code'' \<noteq> []"
  by (simp_all add: Category_of_def ustr_def)

lemma ex_text: "user_text_of ex_update = [104, 105]"
  by (simp add: user_text_of_def ex_update_def py_strip_def is_space_def)

lemma ex_user: "user_id_of ex_update = 7"
  by (simp add: user_id_of_def ex_update_def)

lemma ex_allowed: "fst (is_allowed ex_limiter (user_id_of ex_update) now)"
  by (simp add: is_allowed_fst ex_limiter_def timestamps_of_def
      RATE_LIMIT_REQUESTS_PER_MINUTE_def)

lemma ex_monotonic: "monotonic (ex_env_ok now content) = now"
  by (simp add: ex_env_ok_def)

lemma ex_telegram: "telegram (ex_env_ok now content) j = None"
  by (simp add: ex_env_ok_def)

lemma call_deepseek_first_answer:
  assumes "\<And>k. tr sp um k = Inr (Some content)" "\<not> list_all is_space content"
  shows "outcome (call_deepseek tr sp um) = Inr (py_strip content)"
proof -
  have ne: "py_strip content \<noteq> []"
  proof
    assume "py_strip content = []"
    then have "dropWhile is_space (rev (dropWhile is_space content)) = []"
      by (simp add: py_strip_def)
    then have "\<forall>x\<in>set (dropWhile is_space content). is_space x"
      by (simp add: dropWhile_eq_Nil_conv)
    moreover obtain x where x: "x \<in> set content" "\<not> is_space x"
      using assms(2) by (auto simp: list_all_iff)
    then have "dropWhile is_space content \<noteq> []" by (auto simp: dropWhile_eq_Nil_conv)
    then have "\<not> is_space (hd (dropWhile is_space content))" by (rule hd_dropWhile)
    moreover have "hd (dropWhile is_space content) \<in> set (dropWhile is_space content)"
      using \<open>dropWhile is_space content \<noteq> []\<close> by simp
    ultimately show False by blast
  qed
  have "attempt_once (tr sp um 0) = Inr (py_strip content)"
    using ne assms by (auto simp: attempt_once_def check_content_def)
  then have "call_deepseek tr sp um
        = \<lparr>outcome = Inr (py_strip content), attempts = 0 + 1, sleeps = map (\<lambda>j. 2 ^ j) [0..<0]\<rparr>"
    by (intro call_deepseek_success_at) (simp_all add: DEEPSEEK_RETRY_ATTEMPTS_def)
  then show ?thesis by simp
qed

lemma ex_call_ok:
  "\<not> list_all is_space content \<Longrightarrow>
   outcome (call_deepseek (transport (ex_env_ok now content)) sp um) = Inr (py_strip content)"
  by (rule call_deepseek_first_answer) (simp_all add: ex_env_ok_def)

lemma ex_call_delete_refused:
  "outcome (call_deepseek (transport ex_env_delete_refused) sp um) = Inr [114]"
  using call_deepseek_first_answer [of "transport ex_env_delete_refused" sp um "[114]"]
  by (simp add: ex_env_delete_refused_def py_strip_def is_space_def)


text \<open>
  A generation whose API call succeeds, while deleting the status message times out:
  the exception is no \<open>BadRequest\<close>, so lines 321 to 340 are skipped, the \<open>except\<close> block
  reports an error and the handler returns \<open>MAIN_MENU\<close> with the session as it was.
\<close>

lemma delete_refused_skips_history:
  "outcome (call_deepseek (transport ex_env_delete_refused) (SYSTEM_PROMPTS CODE)
              (user_text_of ex_update)) = Inr [114] \<and>
   fst (handle_description ex_env_delete_refused ex_update ex_session ex_limiter)
     = Inr MAIN_MENU \<and>
   fst (snd (handle_description ex_env_delete_refused ex_update ex_session ex_limiter))
     = ex_session"
proof -
  have g: "handle_description ex_env_delete_refused ex_update ex_session ex_limiter
        = description_try ex_env_delete_refused CODE (Category_value CODE)
            (user_text_of ex_update) ex_session
            (snd (is_allowed ex_limiter (user_id_of ex_update)
                    (monotonic ex_env_delete_refused)))"
  proof (rule handle_description_reaches)
    show "category ex_session = Some (Category_value CODE)" by (simp add: ex_session_def)
    show "Category_value CODE \<noteq> []" using ex_category by blast
    show "Category_of (Category_value CODE) = Some CODE" using ex_category by blast
    show "user_text_of ex_update \<noteq> []" by (simp add: ex_text)
    show "fst (is_allowed ex_limiter (user_id_of ex_update) (monotonic ex_env_delete_refused))"
      by (rule ex_allowed)
    show "telegram ex_env_delete_refused 0 = None" by (simp add: ex_env_delete_refused_def)
  qed
  have d: "delete_status ex_env_delete_refused 1 = (Some (OtherException (ustr ''Timed out'')), [])"
    by (simp add: delete_status_def ex_env_delete_refused_def)
  have r: "\<forall>j. 2 < j \<longrightarrow> telegram ex_env_delete_refused j = None"
    by (simp add: ex_env_delete_refused_def)
  show ?thesis
    unfolding g
    using ex_call_delete_refused [of "SYSTEM_PROMPTS CODE" "user_text_of ex_update"] d
      after_error_returns [OF r]
    by (simp add: description_try_def Let_def after_error_session)
qed






lemma handle_description_history:
  assumes "category ud = Some cv" "cv \<noteq> []" "Category_of cv = Some cat"
    and "user_text_of upd \<noteq> []"
    and "fst (is_allowed rl (user_id_of upd) (monotonic ev))"
    and "telegram ev 0 = None"
    and "outcome (call_deepseek (transport ev) (SYSTEM_PROMPTS cat) (user_text_of upd)) = Inr result"
    and "telegram ev 1 = None \<or> (\<exists>m. telegram ev 1 = Some (BadRequest m))"
  shows "history (fst (snd (handle_description ev upd ud rl)))
         = Some (last_items HISTORY_MAX_ITEMS (history_of ud @ [history_entry cv result]))"
  unfolding handle_description_reaches [OF assms(1-6)]
  by (rule description_try_history [OF assms(7) delete_status_ok [OF assms(8)]])

lemma handle_description_success:
  assumes "category ud = Some cv" "cv \<noteq> []" "Category_of cv = Some cat"
    and "user_text_of upd \<noteq> []"
    and "fst (is_allowed rl (user_id_of upd) (monotonic ev))"
    and "telegram ev 0 = None"
    and "outcome (call_deepseek (transport ev) (SYSTEM_PROMPTS cat) (user_text_of upd)) = Inr result"
    and "telegram ev 1 = None \<or> (\<exists>m. telegram ev 1 = Some (BadRequest m))"
    and "\<forall>j. 2 \<le> j \<longrightarrow> telegram ev j = None"
  shows "fst (handle_description ev upd ud rl) = Inr PROMPT_SHOWN \<and>
         fst (snd (handle_description ev upd ud rl))
         = ud\<lparr>history := Some (last_items HISTORY_MAX_ITEMS
                               (history_of ud @ [history_entry cv result])),
              last_prompt := Some result, last_category := Some cv,
              original_description := Some (user_text_of upd)\<rparr>"
  unfolding handle_description_reaches [OF assms(1-6)]
  by (rule description_try_success [OF assms(7) delete_status_ok [OF assms(8)] assms(9)])

lemma handle_refinement_last_prompt:
  assumes "last_prompt ud = Some p" "p \<noteq> []"
    and "user_text_of upd \<noteq> []"
    and "fst (is_allowed rl (user_id_of upd) (monotonic ev))"
    and "telegram ev 0 = None"
    and "outcome (call_deepseek (transport ev) REFINEMENT_SYSTEM_PROMPT
                    (refinement_message p (user_text_of upd))) = Inr result"
    and "telegram ev 1 = None \<or> (\<exists>m. telegram ev 1 = Some (BadRequest m))"
  shows "fst (snd (handle_refinement ev upd ud rl)) = ud\<lparr>last_prompt := Some result\<rparr>"
  unfolding handle_refinement_reaches [OF assms(1-5)]
  by (rule refinement_try_last_prompt [OF assms(6) delete_status_ok [OF assms(7)]])

lemma handle_refinement_success:
  assumes "last_prompt ud = Some p" "p \<noteq> []"
    and "user_text_of upd \<noteq> []"
    and "fst (is_allowed rl (user_id_of upd) (monotonic ev))"
    and "telegram ev 0 = None"
    and "outcome (call_deepseek (transport ev) REFINEMENT_SYSTEM_PROMPT
                    (refinement_message p (user_text_of upd))) = Inr result"
    and "telegram ev 1 = None \<or> (\<exists>m. telegram ev 1 = Some (BadRequest m))"
    and "\<forall>j. 2 \<le> j \<longrightarrow> telegram ev j = None"
  shows "fst (handle_refinement ev upd ud rl) = Inr PROMPT_SHOWN"
  unfolding handle_refinement_reaches [OF assms(1-5)]
  by (rule refinement_try_success [OF assms(6) delete_status_ok [OF assms(7)] assms(8)])

text \<open>
  Claim C1, as stated, has every successful call of the API followed by a new history entry,
  also in \<open>handle_refinement\<close>. The refinement handler never touches \<open>history\<close>: in the
  example every Telegram call succeeds, the API call succeeds, the handler returns
  \<open>PROMPT_SHOWN\<close>, \<open>last_prompt\<close> becomes the result and the history keeps its single entry.
\<close>

theorem refinement_appends_no_history_counterexample:
  "outcome (call_deepseek (transport (ex_env_ok 0 [114])) REFINEMENT_SYSTEM_PROMPT
              (refinement_message [112] (user_text_of ex_update))) = Inr [114] \<and>
   fst (handle_refinement (ex_env_ok 0 [114]) ex_update ex_session ex_limiter)
     = Inr PROMPT_SHOWN \<and>
   last_prompt (fst (snd (handle_refinement (ex_env_ok 0 [114]) ex_update ex_session ex_limiter)))
     = Some [114] \<and>
   history (fst (snd (handle_refinement (ex_env_ok 0 [114]) ex_update ex_session ex_limiter)))
     = history ex_session \<and>
   length (history_of (fst (snd (handle_refinement (ex_env_ok 0 [114]) ex_update ex_session
      ex_limiter)))) = 1 \<and>
   length (history_of ex_session) = 1"
proof -
  have c: "outcome (call_deepseek (transport (ex_env_ok 0 [114])) REFINEMENT_SYSTEM_PROMPT
              (refinement_message [112] (user_text_of ex_update))) = Inr [114]"
    using ex_call_ok [of "[114]" 0] by (simp add: py_strip_def is_space_def)
  have g: "last_prompt ex_session = Some [112]" "[112] \<noteq> ([]::pstr)"
    "user_text_of ex_update \<noteq> []"
    "fst (is_allowed ex_limiter (user_id_of ex_update) (monotonic (ex_env_ok 0 [114])))"
    "telegram (ex_env_ok 0 [114]) 0 = None"
    using ex_allowed by (simp_all add: ex_session_def ex_text ex_telegram)
  have d: "telegram (ex_env_ok 0 [114]) 1 = None \<or>
           (\<exists>m. telegram (ex_env_ok 0 [114]) 1 = Some (BadRequest m))"
    by (simp add: ex_telegram)
  have r: "\<forall>j. 2 \<le> j \<longrightarrow> telegram (ex_env_ok 0 [114]) j = None"
    by (simp add: ex_telegram)
  have s: "fst (handle_refinement (ex_env_ok 0 [114]) ex_update ex_session ex_limiter)
             = Inr PROMPT_SHOWN"
    by (rule handle_refinement_success [OF g c d r])
  have u: "fst (snd (handle_refinement (ex_env_ok 0 [114]) ex_update ex_session ex_limiter))
             = ex_session\<lparr>last_prompt := Some [114]\<rparr>"
    by (rule handle_refinement_last_prompt [OF g c d])
  show ?thesis unfolding u using c s [unfolded u]
    by (simp add: history_of_def ex_session_def)
qed

text \<open>
  Claim C1, amended. In \<open>handle_description\<close>, when the guards pass, the status message
  (call 0) is sent, the API call succeeds and deleting the status message (call 1) succeeds
  or raises \<open>BadRequest\<close>, the history becomes the old history with the entry of the result
  appended, cut to its last \<open>HISTORY_MAX_ITEMS = 5\<close> entries, whatever the later Telegram
  calls do; when these are delivered as well, the handler returns \<open>PROMPT_SHOWN\<close> and
  \<open>last_prompt\<close> is the result. Every run of \<open>handle_description\<close> that returns
  \<open>PROMPT_SHOWN\<close> made a successful API call and appended the entry of its result.
  \<open>handle_refinement\<close> leaves the history as it was in every run; under the same
  conditions on its API call and on calls 0 and 1 it stores the result as \<open>last_prompt\<close>,
  and it returns \<open>PROMPT_SHOWN\<close> when the later Telegram calls are delivered.
\<close>

theorem generation_appends_refinement_keeps_history:
  "(category ud = Some cv \<and> cv \<noteq> [] \<and> Category_of cv = Some cat \<and> user_text_of upd \<noteq> [] \<and>
    fst (is_allowed rl (user_id_of upd) (monotonic ev)) \<and> telegram ev 0 = None \<and>
    outcome (call_deepseek (transport ev) (SYSTEM_PROMPTS cat) (user_text_of upd)) = Inr result \<and>
    (telegram ev 1 = None \<or> (\<exists>m. telegram ev 1 = Some (BadRequest m))) \<longrightarrow>
      history (fst (snd (handle_description ev upd ud rl)))
        = Some (last_items HISTORY_MAX_ITEMS (history_of ud @ [history_entry cv result])) \<and>
      ((\<forall>j. 2 \<le> j \<longrightarrow> telegram ev j = None) \<longrightarrow>
         fst (handle_description ev upd ud rl) = Inr PROMPT_SHOWN \<and>
         last_prompt (fst (snd (handle_description ev upd ud rl))) = Some result)) \<and>
   (fst (handle_description ev upd ud rl) = Inr PROMPT_SHOWN \<longrightarrow>
      (\<exists>cv cat result. category ud = Some cv \<and> Category_of cv = Some cat \<and>
         outcome (call_deepseek (transport ev) (SYSTEM_PROMPTS cat) (user_text_of upd))
           = Inr result \<and>
         history (fst (snd (handle_description ev upd ud rl)))
           = Some (last_items HISTORY_MAX_ITEMS (history_of ud @ [history_entry cv result])) \<and>
         last_prompt (fst (snd (handle_description ev upd ud rl))) = Some result)) \<and>
   history (fst (snd (handle_refinement ev upd ud rl))) = history ud \<and>
   (last_prompt ud = Some p \<and> p \<noteq> [] \<and> user_text_of upd \<noteq> [] \<and>
    fst (is_allowed rl (user_id_of upd) (monotonic ev)) \<and> telegram ev 0 = None \<and>
    outcome (call_deepseek (transport ev) REFINEMENT_SYSTEM_PROMPT
               (refinement_message p (user_text_of upd))) = Inr result' \<and>
    (telegram ev 1 = None \<or> (\<exists>m. telegram ev 1 = Some (BadRequest m))) \<longrightarrow>
      last_prompt (fst (snd (handle_refinement ev upd ud rl))) = Some result' \<and>
      ((\<forall>j. 2 \<le> j \<longrightarrow> telegram ev j = None) \<longrightarrow>
         fst (handle_refinement ev upd ud rl) = Inr PROMPT_SHOWN))"
proof (intro conjI impI)
  assume a: "category ud = Some cv \<and> cv \<noteq> [] \<and> Category_of cv = Some cat \<and>
    user_text_of upd \<noteq> [] \<and> fst (is_allowed rl (user_id_of upd) (monotonic ev)) \<and>
    telegram ev 0 = None \<and>
    outcome (call_deepseek (transport ev) (SYSTEM_PROMPTS cat) (user_text_of upd)) = Inr result \<and>
    (telegram ev 1 = None \<or> (\<exists>m. telegram ev 1 = Some (BadRequest m)))"
  then show "history (fst (snd (handle_description ev upd ud rl)))
        = Some (last_items HISTORY_MAX_ITEMS (history_of ud @ [history_entry cv result]))"
    using handle_description_history [of ud cv cat upd rl ev result] by blast
  assume r: "\<forall>j. 2 \<le> j \<longrightarrow> telegram ev j = None"
  have "fst (handle_description ev upd ud rl) = Inr PROMPT_SHOWN \<and>
         fst (snd (handle_description ev upd ud rl))
         = ud\<lparr>history := Some (last_items HISTORY_MAX_ITEMS
                               (history_of ud @ [history_entry cv result])),
              last_prompt := Some result, last_category := Some cv,
              original_description := Some (user_text_of upd)\<rparr>"
    using a r handle_description_success [of ud cv cat upd rl ev result] by blast
  then show "fst (handle_description ev upd ud rl) = Inr PROMPT_SHOWN"
    and "last_prompt (fst (snd (handle_description ev upd ud rl))) = Some result"
    by simp_all
next
  assume "fst (handle_description ev upd ud rl) = Inr PROMPT_SHOWN"
  from handle_description_inversion [OF this]
  obtain cv cat result where i: "category ud = Some cv" "Category_of cv = Some cat"
    "outcome (call_deepseek (transport ev) (SYSTEM_PROMPTS cat) (user_text_of upd)) = Inr result"
    "fst (snd (handle_description ev upd ud rl))
       = ud\<lparr>history := Some (last_items HISTORY_MAX_ITEMS
                             (history_of ud @ [history_entry cv result])),
            last_prompt := Some result, last_category := Some cv,
            original_description := Some (user_text_of upd)\<rparr>"
    by blast
  show "\<exists>cv cat result. category ud = Some cv \<and> Category_of cv = Some cat \<and>
         outcome (call_deepseek (transport ev) (SYSTEM_PROMPTS cat) (user_text_of upd))
           = Inr result \<and>
         history (fst (snd (handle_description ev upd ud rl)))
           = Some (last_items HISTORY_MAX_ITEMS (history_of ud @ [history_entry cv result])) \<and>
         last_prompt (fst (snd (handle_description ev upd ud rl))) = Some result"
    unfolding i(4) using i(1-3) by auto
next
  show "history (fst (snd (handle_refinement ev upd ud rl))) = history ud"
    by (rule handle_refinement_history)
next
  assume a: "last_prompt ud = Some p \<and> p \<noteq> [] \<and> user_text_of upd \<noteq> [] \<and>
    fst (is_allowed rl (user_id_of upd) (monotonic ev)) \<and> telegram ev 0 = None \<and>
    outcome (call_deepseek (transport ev) REFINEMENT_SYSTEM_PROMPT
               (refinement_message p (user_text_of upd))) = Inr result' \<and>
    (telegram ev 1 = None \<or> (\<exists>m. telegram ev 1 = Some (BadRequest m)))"
  then have "fst (snd (handle_refinement ev upd ud rl)) = ud\<lparr>last_prompt := Some result'\<rparr>"
    using handle_refinement_last_prompt [of ud p upd rl ev result'] by blast
  then show "last_prompt (fst (snd (handle_refinement ev upd ud rl))) = Some result'"
    by simp
  assume r: "\<forall>j. 2 \<le> j \<longrightarrow> telegram ev j = None"
  show "fst (handle_refinement ev upd ud rl) = Inr PROMPT_SHOWN"
    using a r handle_refinement_success [of ud p upd rl ev result'] by blast
qed

theorem generation_appends_refinement_keeps_history_witness:
  "category ex_session = Some (Category_value CODE) \<and> Category_value CODE \<noteq> [] \<and>
   Category_of (Category_value CODE) = Some CODE \<and> user_text_of ex_update \<noteq> [] \<and>
   fst (is_allowed ex_limiter (user_id_of ex_update) (monotonic (ex_env_ok 0 [114]))) \<and>
   (\<forall>j. telegram (ex_env_ok 0 [114]) j = None) \<and>
   outcome (call_deepseek (transport (ex_env_ok 0 [114])) (SYSTEM_PROMPTS CODE)
              (user_text_of ex_update)) = Inr [114] \<and>
   fst (handle_description (ex_env_ok 0 [114]) ex_update ex_session ex_limiter)
     = Inr PROMPT_SHOWN \<and>
   history (fst (snd (handle_description (ex_env_ok 0 [114]) ex_update ex_session ex_limiter)))
     = Some [\<lparr>item_category = Category_value CODE, item_text = [112]\<rparr>,
             \<lparr>item_category = Category_value CODE, item_text = [114]\<rparr>] \<and>
   last_prompt (fst (snd (handle_description (ex_env_ok 0 [114]) ex_update ex_session
      ex_limiter))) = Some [114] \<and>
   last_prompt ex_session = Some [112] \<and> [112] \<noteq> ([]::pstr) \<and>
   outcome (call_deepseek (transport (ex_env_ok 0 [114])) REFINEMENT_SYSTEM_PROMPT
              (refinement_message [112] (user_text_of ex_update))) = Inr [114] \<and>
   fst (handle_refinement (ex_env_ok 0 [114]) ex_update ex_session ex_limiter)
     = Inr PROMPT_SHOWN \<and>
   last_prompt (fst (snd (handle_refinement (ex_env_ok 0 [114]) ex_update ex_session ex_limiter)))
     = Some [114] \<and>
   history (fst (snd (handle_refinement (ex_env_ok 0 [114]) ex_update ex_session ex_limiter)))
     = history ex_session"
proof -
  have c: "outcome (call_deepseek (transport (ex_env_ok 0 [114])) sp um) = Inr [114]" for sp um
    using ex_call_ok [of "[114]" 0 sp um] by (simp add: py_strip_def is_space_def)
  have h: "category ex_session = Some (Category_value CODE) \<and> Category_value CODE \<noteq> [] \<and>
     Category_of (Category_value CODE) = Some CODE \<and> user_text_of ex_update \<noteq> [] \<and>
     fst (is_allowed ex_limiter (user_id_of ex_update) (monotonic (ex_env_ok 0 [114]))) \<and>
     last_prompt ex_session = Some [112] \<and> [112] \<noteq> ([]::pstr)"
    using ex_category ex_allowed by (simp add: ex_session_def ex_text)
  have t: "\<forall>j. telegram (ex_env_ok 0 [114]) j = None" by (simp add: ex_telegram)
  have e: "last_items HISTORY_MAX_ITEMS
             (history_of ex_session @ [history_entry (Category_value CODE) [114]])
           = [\<lparr>item_category = Category_value CODE, item_text = [112]\<rparr>,
              \<lparr>item_category = Category_value CODE, item_text = [114]\<rparr>]"
    by (simp add: last_items_def HISTORY_MAX_ITEMS_def history_of_def ex_session_def
        history_entry_def del: Category_value.simps)
  show ?thesis
    using h t c [of "SYSTEM_PROMPTS CODE" "user_text_of ex_update"]
      c [of REFINEMENT_SYSTEM_PROMPT "refinement_message [112] (user_text_of ex_update)"]
      generation_appends_refinement_keeps_history [of ex_session "Category_value CODE" CODE
        ex_update ex_limiter "ex_env_ok 0 [114]" "[114]" "[112]" "[114]"]
    unfolding e by blast
qed

lemma handle_description_history_bound:
  "length (history_of (fst (snd (handle_description ev upd ud rl))))
     \<le> max 5 (length (history_of ud))"
proof -
  from handle_description_history_cases [of ev upd ud rl]
  show ?thesis
  proof
    assume "history (fst (snd (handle_description ev upd ud rl))) = history ud"
    then show ?thesis by (simp add: history_of_def)
  next
    assume "\<exists>cv result. history (fst (snd (handle_description ev upd ud rl)))
      = Some (last_items HISTORY_MAX_ITEMS (history_of ud @ [history_entry cv result]))"
    then obtain cv result where
      "history (fst (snd (handle_description ev upd ud rl)))
         = Some (last_items HISTORY_MAX_ITEMS (history_of ud @ [history_entry cv result]))"
      by blast
    then have "history_of (fst (snd (handle_description ev upd ud rl)))
         = last_items HISTORY_MAX_ITEMS (history_of ud @ [history_entry cv result])"
      by (simp add: history_of_def)
    then show ?thesis
      using last_items_length [of HISTORY_MAX_ITEMS "history_of ud @ [history_entry cv result]"]
      by (simp add: HISTORY_MAX_ITEMS_def)
  qed
qed

text \<open>
  Claim C6. A generation is successful when \<open>handle_description\<close> returns \<open>PROMPT_SHOWN\<close>.
  Then the API call succeeded and the history is the old history followed by the new
  entry, cut from the front to its last five entries: it has at most five entries, the
  order is kept and only the oldest are dropped. The text of the entry is the first 200
  code points of the result, followed by the ellipsis (code point 8230) exactly when the
  result is longer than 200. The history is already that when the guards pass, the status
  message (call 0) is sent, the API call succeeds and deleting the status message (call 1)
  succeeds or raises \<open>BadRequest\<close>, whatever the later Telegram calls do. No run of
  \<open>handle_description\<close> makes the history longer than five entries, or than it was. After
  any non-empty run of successful generations the history is the last five entries of the
  old history followed by the generated entries, and after six successful generations it
  consists of exactly the last five generated entries.
\<close>

theorem history_keeps_last_five:
  "(fst (handle_description ev upd ud rl) = Inr PROMPT_SHOWN \<longrightarrow>
      (\<exists>cv cat result evicted.
         category ud = Some cv \<and> Category_of cv = Some cat \<and>
         outcome (call_deepseek (transport ev) (SYSTEM_PROMPTS cat) (user_text_of upd))
           = Inr result \<and>
         history_of (fst (snd (handle_description ev upd ud rl)))
           = last_items HISTORY_MAX_ITEMS
               (history_of ud @
                [\<lparr>item_category = cv,
                  item_text = take 200 result @ (if length result > 200 then [8230] else [])\<rparr>]) \<and>
         history_of ud @
           [\<lparr>item_category = cv,
             item_text = take 200 result @ (if length result > 200 then [8230] else [])\<rparr>]
           = evicted @ history_of (fst (snd (handle_description ev upd ud rl)))) \<and>
      length (history_of (fst (snd (handle_description ev upd ud rl)))) \<le> 5) \<and>
   (category ud = Some cv \<and> cv \<noteq> [] \<and> Category_of cv = Some cat \<and> user_text_of upd \<noteq> [] \<and>
    fst (is_allowed rl (user_id_of upd) (monotonic ev)) \<and> telegram ev 0 = None \<and>
    outcome (call_deepseek (transport ev) (SYSTEM_PROMPTS cat) (user_text_of upd)) = Inr result \<and>
    (telegram ev 1 = None \<or> (\<exists>m. telegram ev 1 = Some (BadRequest m))) \<longrightarrow>
      history_of (fst (snd (handle_description ev upd ud rl)))
        = last_items HISTORY_MAX_ITEMS
            (history_of ud @
             [\<lparr>item_category = cv,
               item_text = take 200 result @ (if length result > 200 then [8230] else [])\<rparr>]) \<and>
      length (history_of (fst (snd (handle_description ev upd ud rl)))) \<le> 5 \<and>
      (\<exists>evicted. history_of ud @ [history_entry cv result]
                  = evicted @ history_of (fst (snd (handle_description ev upd ud rl))))) \<and>
   length (history_of (fst (snd (handle_description ev upd ud rl))))
     \<le> max 5 (length (history_of ud)) \<and>
   (list_all (\<lambda>r. fst r = Inr PROMPT_SHOWN) (run_descriptions steps ud rl) \<and> steps \<noteq> [] \<longrightarrow>
      history_of (snd (last (run_descriptions steps ud rl)))
        = last_items HISTORY_MAX_ITEMS
            (history_of ud @ map generated_entry (run_descriptions steps ud rl)) \<and>
      length (history_of (snd (last (run_descriptions steps ud rl)))) \<le> 5) \<and>
   (list_all (\<lambda>r. fst r = Inr PROMPT_SHOWN) (run_descriptions steps ud rl) \<and>
    length steps = 6 \<longrightarrow>
      history_of (snd (last (run_descriptions steps ud rl)))
        = tl (map generated_entry (run_descriptions steps ud rl)) \<and>
      length (history_of (snd (last (run_descriptions steps ud rl)))) = 5)"
proof (intro conjI impI)
  assume "fst (handle_description ev upd ud rl) = Inr PROMPT_SHOWN"
  from handle_description_inversion [OF this]
  obtain cv cat result where i: "category ud = Some cv" "Category_of cv = Some cat"
    "outcome (call_deepseek (transport ev) (SYSTEM_PROMPTS cat) (user_text_of upd)) = Inr result"
    "fst (snd (handle_description ev upd ud rl))
       = ud\<lparr>history := Some (last_items HISTORY_MAX_ITEMS
                             (history_of ud @ [history_entry cv result])),
            last_prompt := Some result, last_category := Some cv,
            original_description := Some (user_text_of upd)\<rparr>"
    by blast
  have h: "history_of (fst (snd (handle_description ev upd ud rl)))
      = last_items HISTORY_MAX_ITEMS (history_of ud @ [history_entry cv result])"
    unfolding i(4) by (simp add: history_of_def)
  obtain evicted where e: "history_of ud @ [history_entry cv result]
      = evicted @ last_items HISTORY_MAX_ITEMS (history_of ud @ [history_entry cv result])"
    using last_items_suffix by blast
  have "category ud = Some cv \<and> Category_of cv = Some cat \<and>
         outcome (call_deepseek (transport ev) (SYSTEM_PROMPTS cat) (user_text_of upd))
           = Inr result \<and>
         history_of (fst (snd (handle_description ev upd ud rl)))
           = last_items HISTORY_MAX_ITEMS (history_of ud @ [history_entry cv result]) \<and>
         history_of ud @ [history_entry cv result]
           = evicted @ history_of (fst (snd (handle_description ev upd ud rl)))"
    using i(1-3) h e by simp
  then show "\<exists>cv cat result evicted.
         category ud = Some cv \<and> Category_of cv = Some cat \<and>
         outcome (call_deepseek (transport ev) (SYSTEM_PROMPTS cat) (user_text_of upd))
           = Inr result \<and>
         history_of (fst (snd (handle_description ev upd ud rl)))
           = last_items HISTORY_MAX_ITEMS
               (history_of ud @
                [\<lparr>item_category = cv,
                  item_text = take 200 result @ (if length result > 200 then [8230] else [])\<rparr>]) \<and>
         history_of ud @
           [\<lparr>item_category = cv,
             item_text = take 200 result @ (if length result > 200 then [8230] else [])\<rparr>]
           = evicted @ history_of (fst (snd (handle_description ev upd ud rl)))"
    unfolding history_entry_def by blast
  show "length (history_of (fst (snd (handle_description ev upd ud rl)))) \<le> 5"
    unfolding h using last_items_length [of HISTORY_MAX_ITEMS]
    by (simp add: HISTORY_MAX_ITEMS_def)
next
  assume "category ud = Some cv \<and> cv \<noteq> [] \<and> Category_of cv = Some cat \<and>
    user_text_of upd \<noteq> [] \<and> fst (is_allowed rl (user_id_of upd) (monotonic ev)) \<and>
    telegram ev 0 = None \<and>
    outcome (call_deepseek (transport ev) (SYSTEM_PROMPTS cat) (user_text_of upd)) = Inr result \<and>
    (telegram ev 1 = None \<or> (\<exists>m. telegram ev 1 = Some (BadRequest m)))"
  then have "history (fst (snd (handle_description ev upd ud rl)))
        = Some (last_items HISTORY_MAX_ITEMS (history_of ud @ [history_entry cv result]))"
    using handle_description_history [of ud cv cat upd rl ev result] by blast
  then have h: "history_of (fst (snd (handle_description ev upd ud rl)))
      = last_items HISTORY_MAX_ITEMS (history_of ud @ [history_entry cv result])"
    by (simp add: history_of_def)
  show "history_of (fst (snd (handle_description ev upd ud rl)))
        = last_items HISTORY_MAX_ITEMS
            (history_of ud @
             [\<lparr>item_category = cv,
               item_text = take 200 result @ (if length result > 200 then [8230] else [])\<rparr>])"
    using h by (simp only: history_entry_def)
  show "length (history_of (fst (snd (handle_description ev upd ud rl)))) \<le> 5"
    unfolding h using last_items_length [of HISTORY_MAX_ITEMS]
    by (simp add: HISTORY_MAX_ITEMS_def)
  show "\<exists>evicted. history_of ud @ [history_entry cv result]
                  = evicted @ history_of (fst (snd (handle_description ev upd ud rl)))"
    unfolding h by (rule last_items_suffix)
next
  show "length (history_of (fst (snd (handle_description ev upd ud rl))))
     \<le> max 5 (length (history_of ud))"
    by (rule handle_description_history_bound)
next
  assume a: "list_all (\<lambda>r. fst r = Inr PROMPT_SHOWN) (run_descriptions steps ud rl) \<and>
    steps \<noteq> []"
  then show h: "history_of (snd (last (run_descriptions steps ud rl)))
        = last_items HISTORY_MAX_ITEMS
            (history_of ud @ map generated_entry (run_descriptions steps ud rl))"
    using run_descriptions_history [of steps ud rl] by blast
  show "length (history_of (snd (last (run_descriptions steps ud rl)))) \<le> 5"
    unfolding h using last_items_length [of HISTORY_MAX_ITEMS]
    by (simp add: HISTORY_MAX_ITEMS_def)
next
  assume a: "list_all (\<lambda>r. fst r = Inr PROMPT_SHOWN) (run_descriptions steps ud rl) \<and>
    length steps = 6"
  then have ne: "steps \<noteq> []" by auto
  have len: "length (map generated_entry (run_descriptions steps ud rl)) = 6"
    using a by (simp add: run_descriptions_length)
  have "history_of (snd (last (run_descriptions steps ud rl)))
        = last_items HISTORY_MAX_ITEMS
            (history_of ud @ map generated_entry (run_descriptions steps ud rl))"
    using run_descriptions_history [of steps ud rl] a ne by blast
  also have "\<dots> = tl (map generated_entry (run_descriptions steps ud rl))"
    using len by (rule last_items_of_six)
  finally show h: "history_of (snd (last (run_descriptions steps ud rl)))
        = tl (map generated_entry (run_descriptions steps ud rl))" .
  show "length (history_of (snd (last (run_descriptions steps ud rl)))) = 5"
    unfolding h using len by simp
qed

theorem history_keeps_last_five_witness:
  "category ex_session = Some (Category_value CODE) \<and> Category_value CODE \<noteq> [] \<and>
   Category_of (Category_value CODE) = Some CODE \<and> user_text_of ex_update \<noteq> [] \<and>
   fst (is_allowed ex_limiter (user_id_of ex_update) (monotonic (ex_env_ok 0 [114]))) \<and>
   (\<forall>j. telegram (ex_env_ok 0 [114]) j = None) \<and>
   outcome (call_deepseek (transport (ex_env_ok 0 [114])) (SYSTEM_PROMPTS CODE)
              (user_text_of ex_update)) = Inr [114] \<and>
   fst (handle_description (ex_env_ok 0 [114]) ex_update ex_session ex_limiter)
     = Inr PROMPT_SHOWN \<and>
   history_of (fst (snd (handle_description (ex_env_ok 0 [114]) ex_update ex_session ex_limiter)))
     = [\<lparr>item_category = Category_value CODE, item_text = [112]\<rparr>,
        \<lparr>item_category = Category_value CODE, item_text = [114]\<rparr>] \<and>
   length (history_of (fst (snd (handle_description (ex_env_ok 0 [114]) ex_update ex_session
      ex_limiter)))) \<le> 5 \<and>
   list_all (\<lambda>r. fst r = Inr PROMPT_SHOWN)
     (run_descriptions ex_six_steps ex_session ex_limiter) \<and>
   length ex_six_steps = 6 \<and>
   history_of (snd (last (run_descriptions ex_six_steps ex_session ex_limiter)))
     = tl (map generated_entry (run_descriptions ex_six_steps ex_session ex_limiter)) \<and>
   length (history_of (snd (last (run_descriptions ex_six_steps ex_session ex_limiter)))) = 5 \<and>
   history_of (snd (last (run_descriptions ex_six_steps ex_session ex_limiter)))
     = [\<lparr>item_category = ustr ''code'', item_text = [66]\<rparr>,
        \<lparr>item_category = ustr ''code'', item_text = [67]\<rparr>,
        \<lparr>item_category = ustr ''code'', item_text = [68]\<rparr>,
        \<lparr>item_category = ustr ''code'', item_text = [69]\<rparr>,
        \<lparr>item_category = ustr ''code'', item_text = [70]\<rparr>]"
proof -
  have c: "outcome (call_deepseek (transport (ex_env_ok 0 [114])) (SYSTEM_PROMPTS CODE)
              (user_text_of ex_update)) = Inr [114]"
    using ex_call_ok [of "[114]" 0] by (simp add: py_strip_def is_space_def)
  have h: "category ex_session = Some (Category_value CODE) \<and> Category_value CODE \<noteq> [] \<and>
     Category_of (Category_value CODE) = Some CODE \<and> user_text_of ex_update \<noteq> [] \<and>
     fst (is_allowed ex_limiter (user_id_of ex_update) (monotonic (ex_env_ok 0 [114])))"
    using ex_category ex_allowed by (simp add: ex_session_def ex_text)
  have t: "\<forall>j. telegram (ex_env_ok 0 [114]) j = None" by (simp add: ex_telegram)
  have r: "\<forall>j. 2 \<le> j \<longrightarrow> telegram (ex_env_ok 0 [114]) j = None" by (simp add: ex_telegram)
  have d: "telegram (ex_env_ok 0 [114]) 1 = None \<or>
           (\<exists>m. telegram (ex_env_ok 0 [114]) 1 = Some (BadRequest m))"
    by (simp add: ex_telegram)
  have shown: "fst (handle_description (ex_env_ok 0 [114]) ex_update ex_session ex_limiter)
     = Inr PROMPT_SHOWN"
  proof (rule handle_description_success [THEN conjunct1, OF _ _ _ _ _ _ c d r])
    show "category ex_session = Some (Category_value CODE)" using h by blast
    show "Category_value CODE \<noteq> []" using h by blast
    show "Category_of (Category_value CODE) = Some CODE" using h by blast
    show "user_text_of ex_update \<noteq> []" using h by blast
    show "fst (is_allowed ex_limiter (user_id_of ex_update) (monotonic (ex_env_ok 0 [114])))"
      using h by blast
    show "telegram (ex_env_ok 0 [114]) 0 = None" using t by blast
  qed
  have e: "last_items HISTORY_MAX_ITEMS
             (history_of ex_session @
              [\<lparr>item_category = Category_value CODE,
                item_text = take 200 [114] @ (if length [114::nat] > 200 then [8230] else [])\<rparr>])
           = [\<lparr>item_category = Category_value CODE, item_text = [112]\<rparr>,
              \<lparr>item_category = Category_value CODE, item_text = [114]\<rparr>]"
    by (simp add: last_items_def HISTORY_MAX_ITEMS_def history_of_def ex_session_def
        del: Category_value.simps)
  have one: "history_of (fst (snd (handle_description (ex_env_ok 0 [114]) ex_update ex_session
                ex_limiter)))
       = [\<lparr>item_category = Category_value CODE, item_text = [112]\<rparr>,
          \<lparr>item_category = Category_value CODE, item_text = [114]\<rparr>]"
    using h t c d history_keeps_last_five [of "ex_env_ok 0 [114]" ex_update ex_session ex_limiter
        "Category_value CODE" CODE "[114]"]
    unfolding e by blast
  have five: "length (history_of (fst (snd (handle_description (ex_env_ok 0 [114]) ex_update
                ex_session ex_limiter)))) \<le> 5"
    using shown history_keeps_last_five [of "ex_env_ok 0 [114]" ex_update ex_session ex_limiter]
    by blast
  have "map fst (run_descriptions ex_six_steps ex_session ex_limiter)
        = [Inr PROMPT_SHOWN, Inr PROMPT_SHOWN, Inr PROMPT_SHOWN, Inr PROMPT_SHOWN,
           Inr PROMPT_SHOWN, Inr PROMPT_SHOWN]"
    by (simp add: ex_six_steps_def handle_description_def description_try_def deliver_def
        delete_status_def result_messages_def Let_def select_category_def
        ex_session_def ex_code ex_text ex_user ex_monotonic ex_telegram ex_call_ok
        py_strip_def is_space_def
        is_allowed_def timestamps_of_def ex_limiter_def RATE_LIMIT_REQUESTS_PER_MINUTE_def
        MAX_MESSAGE_LENGTH_def)
  then have "list_all (\<lambda>st. st = Inr PROMPT_SHOWN)
               (map fst (run_descriptions ex_six_steps ex_session ex_limiter))"
    by simp
  then have ok: "list_all (\<lambda>r. fst r = Inr PROMPT_SHOWN)
                   (run_descriptions ex_six_steps ex_session ex_limiter)"
    by (simp add: list_all_iff)
  have six: "length ex_six_steps = 6" by (simp add: ex_six_steps_def)
  have run: "history_of (snd (last (run_descriptions ex_six_steps ex_session ex_limiter)))
       = tl (map generated_entry (run_descriptions ex_six_steps ex_session ex_limiter)) \<and>
     length (history_of (snd (last (run_descriptions ex_six_steps ex_session ex_limiter)))) = 5"
    using ok six history_keeps_last_five [of _ _ ex_session ex_limiter _ _ _ ex_six_steps]
    by blast
  have val: "history_of (snd (last (run_descriptions ex_six_steps ex_session ex_limiter)))
     = [\<lparr>item_category = ustr ''code'', item_text = [66]\<rparr>,
        \<lparr>item_category = ustr ''code'', item_text = [67]\<rparr>,
        \<lparr>item_category = ustr ''code'', item_text = [68]\<rparr>,
        \<lparr>item_category = ustr ''code'', item_text = [69]\<rparr>,
        \<lparr>item_category = ustr ''code'', item_text = [70]\<rparr>]"
    by (simp add: ex_six_steps_def handle_description_def description_try_def deliver_def
        delete_status_def result_messages_def Let_def select_category_def
        ex_session_def ex_code ex_text ex_user ex_monotonic ex_telegram ex_call_ok
        py_strip_def is_space_def
        is_allowed_def timestamps_of_def ex_limiter_def RATE_LIMIT_REQUESTS_PER_MINUTE_def
        MAX_MESSAGE_LENGTH_def history_of_def history_entry_def last_items_def
        HISTORY_MAX_ITEMS_def)
  show ?thesis
    by (intro conjI h [THEN conjunct1] h [THEN conjunct2, THEN conjunct1]
        h [THEN conjunct2, THEN conjunct2, THEN conjunct1]
        h [THEN conjunct2, THEN conjunct2, THEN conjunct2, THEN conjunct1]
        h [THEN conjunct2, THEN conjunct2, THEN conjunct2, THEN conjunct2]
        t c shown one five ok six run [THEN conjunct1] run [THEN conjunct2] val)
qed

end
